theory Spec2Isabelle
  imports Complex_Main "HOL-Library.Sublist"
begin

section \<open>whisper-timestamped: word timestamps from cross-attention weights\<close>

text \<open>
  A shallow embedding of \<^verbatim>\<open>src/whisper_timestamped/transcribe.py\<close>.

  Conventions of the embedding:
  \<^item> a Python \<^verbatim>\<open>int\<close> is an \<^typ>\<open>int\<close>; a token is an \<^typ>\<open>int\<close>;
  \<^item> a Python \<^verbatim>\<open>float\<close> (a time in seconds, a probability, a log-probability) is a finite
    IEEE 754 double, which is a rational number: its value is a \<^typ>\<open>rat\<close>, and comparisons of
    floats are comparisons of these values. The result of an arithmetic operation or of
    \<^verbatim>\<open>round\<close> is rounded by the machine; these operations are the parameter \<open>ops\<close> of
    every function that computes with floats, so a theorem stated for every \<open>ops\<close> holds for
    the operations of the machine as long as their results are finite;
  \<^item> a Python \<^verbatim>\<open>str\<close> is the list of its code points, \<^typ>\<open>int list\<close>;
  \<^item> every \<^verbatim>\<open>raise\<close>, failed \<^verbatim>\<open>assert\<close> and failing built-in operation is the left
    summand of a result \<open>error + 'a\<close>;
  \<^item> calls to \<^verbatim>\<open>logger\<close> have no effect on the values and are left out, except where
    building the message itself can fail.
\<close>

subsection \<open>Errors, strings, words\<close>

datatype error =
    AssertionError string
  | RuntimeError string
  | IndexError
  | AttributeError
  | TypeError
  | UnboundLocalError

type_synonym pystr = "int list"

definition str :: "string \<Rightarrow> pystr" where
  "str s = map of_char s"

record word =
  w_text :: pystr
  w_start :: rat
  w_end :: rat

text \<open>
  The float operations the source uses: \<^verbatim>\<open>+\<close>, \<^verbatim>\<open>-\<close>, \<^verbatim>\<open>*\<close>, \<^verbatim>\<open>/\<close>, and \<^verbatim>\<open>round(x, 2)\<close>
  on a Python float and on a \<^verbatim>\<open>numpy.float64\<close>.
\<close>

record float_ops =
  fl_add :: "rat \<Rightarrow> rat \<Rightarrow> rat"
  fl_sub :: "rat \<Rightarrow> rat \<Rightarrow> rat"
  fl_mul :: "rat \<Rightarrow> rat \<Rightarrow> rat"
  fl_div :: "rat \<Rightarrow> rat \<Rightarrow> rat"
  fl_round2 :: "rat \<Rightarrow> rat"
  np_round2 :: "rat \<Rightarrow> rat"

text \<open>
  \<^verbatim>\<open>round(x, 2)\<close> without rounding error: the nearest multiple of \<open>1/100\<close>, a tie going to
  the even multiple.
\<close>

definition py_round2 :: "rat \<Rightarrow> rat" where
  "py_round2 x =
     (let y = x * 100; f = \<lfloor>y\<rfloor>; d = y - of_int f
      in of_int (if d < 1 / 2 then f else if 1 / 2 < d then f + 1
                 else if even f then f else f + 1) / 100)"

text \<open>
  The operations without rounding error. The operations of the machine are correctly rounded:
  they return the exact result whenever it is a double. The examples of
  \<^verbatim>\<open>ensure_increasing_positions\<close> use \<open>exact_ops\<close> on dyadic numbers only, where every
  result is a double; elsewhere \<open>exact_ops\<close> gives the numbers without rounding error.
\<close>

definition exact_ops :: float_ops where
  "exact_ops = \<lparr>fl_add = (+), fl_sub = (-), fl_mul = (*), fl_div = (/),
                 fl_round2 = py_round2, np_round2 = py_round2\<rparr>"

text \<open>
  \<^verbatim>\<open>AUDIO_TIME_PER_TOKEN = AUDIO_SAMPLES_PER_TOKEN / SAMPLE_RATE\<close> (lines 24-25), that is
  \<open>320 / 16000\<close>.
\<close>

definition AUDIO_TIME_PER_TOKEN :: "float_ops \<Rightarrow> rat" where
  "AUDIO_TIME_PER_TOKEN ops = fl_div ops 320 16000"

definition N_FRAMES :: int where
  "N_FRAMES = 3000"

subsection \<open>Timestamp consistency: \<^verbatim>\<open>ensure_increasing_positions\<close>\<close>

text \<open>
  Lines 764-765: a word that is not longer than \<open>min_duration\<close> gets the end
  \<open>start + min_duration\<close>.
\<close>

definition min_duration_step :: "float_ops \<Rightarrow> rat \<Rightarrow> word \<Rightarrow> word" where
  "min_duration_step ops min_duration seg =
     (if w_end seg \<le> fl_add ops (w_start seg) min_duration
      then seg\<lparr>w_end := fl_add ops (w_start seg) min_duration\<rparr> else seg)"

text \<open>
  The first loop (lines 754-766). \<open>before\<close> is \<^verbatim>\<open>segments[:i]\<close> as mutated so far, the last
  argument is \<^verbatim>\<open>segments[i:]\<close>; so \<^verbatim>\<open>i > 0\<close> is \<open>before \<noteq> []\<close> and \<^verbatim>\<open>segments[i-1]\<close> is
  \<open>last before\<close>. The result is the mutated list with \<^verbatim>\<open>has_modified_backward\<close>.
\<close>

fun adjust_loop ::
  "float_ops \<Rightarrow> rat \<Rightarrow> word list \<Rightarrow> rat \<Rightarrow> bool \<Rightarrow> word list \<Rightarrow> error + (word list \<times> bool)" where
  "adjust_loop ops min_duration before previous_end modified [] = Inr (before, modified)"
| "adjust_loop ops min_duration before previous_end modified (seg # rest) =
     (if w_start seg < previous_end then
        (if before = [] then Inl (AssertionError ''i > 0'')
         else
           let new_start = fl_round2 ops (fl_div ops (fl_add ops previous_end (w_start seg)) 2)
           in
           if new_start < fl_add ops (w_start (last before)) min_duration then
             let seg' = min_duration_step ops min_duration (seg\<lparr>w_start := previous_end\<rparr>)
             in adjust_loop ops min_duration (before @ [seg']) (w_end seg') modified rest
           else
             let seg' = min_duration_step ops min_duration (seg\<lparr>w_start := new_start\<rparr>)
             in adjust_loop ops min_duration
                  (butlast before @ [(last before)\<lparr>w_end := new_start\<rparr>, seg'])
                  (w_end seg') True rest)
      else
        let seg' = min_duration_step ops min_duration seg
        in adjust_loop ops min_duration (before @ [seg']) (w_end seg') modified rest)"

text \<open>The second loop (lines 770-776): rounding, and the two final assertions.\<close>

fun round_loop :: "float_ops \<Rightarrow> rat \<Rightarrow> word list \<Rightarrow> error + word list" where
  "round_loop ops previous_end [] = Inr []"
| "round_loop ops previous_end (seg # rest) =
     (let seg' = seg\<lparr>w_start := fl_round2 ops (w_start seg),
                     w_end := fl_round2 ops (w_end seg)\<rparr> in
      if \<not> previous_end \<le> w_start seg' then Inl (AssertionError ''start >= previous_end'')
      else if \<not> w_start seg' < w_end seg' then Inl (AssertionError ''end > start'')
      else (case round_loop ops (w_end seg') rest of
              Inl e \<Rightarrow> Inl e
            | Inr rest' \<Rightarrow> Inr (seg' # rest')))"

text \<open>
  What one run of the first loop establishes (and what a second run finds): every word
  starts at or after the end of the one before it (the first at or after \<open>p\<close>) and lasts
  until \<open>start + min_duration\<close> at least, the sum being the one the machine computes.
\<close>

fun settled :: "float_ops \<Rightarrow> rat \<Rightarrow> rat \<Rightarrow> word list \<Rightarrow> bool" where
  "settled ops min_duration p [] = True"
| "settled ops min_duration p (seg # rest) =
     (p \<le> w_start seg \<and> fl_add ops (w_start seg) min_duration \<le> w_end seg
      \<and> settled ops min_duration (w_end seg) rest)"

definition last_end :: "rat \<Rightarrow> word list \<Rightarrow> rat" where
  "last_end p ws = (if ws = [] then p else w_end (last ws))"

lemma min_duration_step_start [simp]:
  "w_start (min_duration_step ops m seg) = w_start seg"
  by (simp add: min_duration_step_def)

lemma min_duration_step_long [simp]:
  "fl_add ops (w_start seg) m \<le> w_end (min_duration_step ops m seg)"
  by (simp add: min_duration_step_def)

lemma min_duration_step_id:
  "fl_add ops (w_start seg) m \<le> w_end seg \<Longrightarrow> min_duration_step ops m seg = seg"
  by (cases "w_end seg = fl_add ops (w_start seg) m") (auto simp: min_duration_step_def)

lemma settled_append:
  "settled ops m p (xs @ ys) = (settled ops m p xs \<and> settled ops m (last_end p xs) ys)"
  by (induction xs arbitrary: p) (auto simp: last_end_def)

lemma last_end_snoc [simp]: "last_end p (xs @ [x]) = w_end x"
  by (simp add: last_end_def)

lemma settled_pull_back:
  assumes "settled ops m p xs" and "xs \<noteq> []" and "fl_add ops (w_start (last xs)) m \<le> n"
  shows "settled ops m p (butlast xs @ [(last xs)\<lparr>w_end := n\<rparr>])"
proof -
  from assms(2) have split: "xs = butlast xs @ [last xs]" by simp
  from assms(1) have "settled ops m p (butlast xs @ [last xs])" using split by simp
  then have "settled ops m p (butlast xs) \<and> last_end p (butlast xs) \<le> w_start (last xs)"
    by (simp add: settled_append)
  with assms(3) show ?thesis by (simp add: settled_append)
qed

text \<open>A run of the first loop over words that are already settled changes nothing.\<close>

lemma adjust_loop_settled:
  "settled ops m pe rest \<Longrightarrow> adjust_loop ops m before pe hm rest = Inr (before @ rest, hm)"
proof (induction rest arbitrary: before pe)
  case Nil
  then show ?case by simp
next
  case (Cons seg rest)
  then have keep: "min_duration_step ops m seg = seg" and "\<not> w_start seg < pe"
    and "settled ops m (w_end seg) rest"
    by (auto intro: min_duration_step_id)
  then show ?case using Cons.IH [of "w_end seg" "before @ [seg]"] by simp
qed

text \<open>Whatever the input, the words are settled after one run of the first loop.\<close>

lemma adjust_loop_settles:
  "adjust_loop ops m before pe hm rest = Inr (out, hm') \<Longrightarrow>
   settled ops m 0 before \<Longrightarrow> pe = last_end 0 before \<Longrightarrow> settled ops m 0 out"
proof (induction ops m before pe hm rest rule: adjust_loop.induct)
  case (1 ops m before pe hm)
  then show ?case by simp
next
  case (2 ops m before pe hm seg rest)
  show ?case
  proof (cases "w_start seg < pe")
    case False
    define seg' where "seg' = min_duration_step ops m seg"
    from False "2.prems"(1) have run:
      "adjust_loop ops m (before @ [seg']) (w_end seg') hm rest = Inr (out, hm')"
      by (simp add: seg'_def Let_def)
    have "settled ops m 0 (before @ [seg'])"
      using False "2.prems"(2,3) by (simp add: settled_append seg'_def)
    then show ?thesis
      using "2.IH"(3) [OF False seg'_def run] by simp
  next
    case ov: True
    with "2.prems"(1) have ne: "before \<noteq> []" by (auto split: if_splits)
    define new_start where
      "new_start = fl_round2 ops (fl_div ops (fl_add ops pe (w_start seg)) 2)"
    show ?thesis
    proof (cases "new_start < fl_add ops (w_start (last before)) m")
      case fwd: True
      define seg' where "seg' = min_duration_step ops m (seg\<lparr>w_start := pe\<rparr>)"
      from ov ne fwd "2.prems"(1) have run:
        "adjust_loop ops m (before @ [seg']) (w_end seg') hm rest = Inr (out, hm')"
        by (simp add: seg'_def new_start_def Let_def)
      have "settled ops m 0 (before @ [seg'])"
        using "2.prems"(2,3) min_duration_step_long [of ops "seg\<lparr>w_start := pe\<rparr>" m]
        by (simp add: settled_append seg'_def)
      then show ?thesis
        using "2.IH"(1) [OF ov ne new_start_def fwd seg'_def run] by simp
    next
      case bwd: False
      define seg' where "seg' = min_duration_step ops m (seg\<lparr>w_start := new_start\<rparr>)"
      let ?before = "butlast before @ [(last before)\<lparr>w_end := new_start\<rparr>, seg']"
      from ov ne bwd "2.prems"(1) have run:
        "adjust_loop ops m ?before (w_end seg') True rest = Inr (out, hm')"
        by (simp add: seg'_def new_start_def Let_def)
      have "settled ops m 0 (butlast before @ [(last before)\<lparr>w_end := new_start\<rparr>])"
        using "2.prems"(2) ne bwd by (intro settled_pull_back) auto
      then have "settled ops m 0 ((butlast before @ [(last before)\<lparr>w_end := new_start\<rparr>]) @ [seg'])"
        unfolding settled_append
        using min_duration_step_long [of ops "seg\<lparr>w_start := new_start\<rparr>" m]
        by (simp add: seg'_def)
      then have inv: "settled ops m 0 ?before" by simp
      have "w_end seg' = last_end 0 ?before"
        by (simp add: last_end_def)
      then show ?thesis
        using "2.IH"(2) [OF ov ne new_start_def bwd seg'_def run inv] by simp
    qed
  qed
qed

text \<open>
  \<^verbatim>\<open>ensure_increasing_positions\<close> (lines 748-778): the first loop, the recursive call when
  an end was pulled back, otherwise the second loop. The list is mutated in place and returned;
  here the mutated list is the result.
\<close>

function ensure_increasing_positions ::
  "float_ops \<Rightarrow> word list \<Rightarrow> rat \<Rightarrow> error + word list" where
  "ensure_increasing_positions ops segments min_duration =
     (case adjust_loop ops min_duration [] 0 False segments of
        Inl e \<Rightarrow> Inl e
      | Inr (segments', has_modified_backward) \<Rightarrow>
          if has_modified_backward
          then ensure_increasing_positions ops segments' min_duration
          else round_loop ops 0 segments')"
  by pat_completeness auto
termination
proof (relation "measure (\<lambda>(ops, segments, m). if settled ops m 0 segments then 0 else 1)")
  show "wf (measure (\<lambda>(ops, segments, m). if settled ops m 0 segments then 0 else (1::nat)))"
    by simp
next
  fix ops :: float_ops and segments :: "word list" and min_duration :: rat and r segments' hm
  assume run: "adjust_loop ops min_duration [] 0 False segments = Inr r"
    and r: "(segments', hm) = r" and hm: "hm"
  from run r have run': "adjust_loop ops min_duration [] 0 False segments = Inr (segments', hm)"
    by simp
  have after: "settled ops min_duration 0 segments'"
    using adjust_loop_settles [OF run'] by (simp add: last_end_def)
  have "\<not> settled ops min_duration 0 segments"
  proof
    assume "settled ops min_duration 0 segments"
    then have "adjust_loop ops min_duration [] 0 False segments = Inr ([] @ segments, False)"
      by (rule adjust_loop_settled)
    with run' hm show False by simp
  qed
  with after show "((ops, segments', min_duration), (ops, segments, min_duration))
      \<in> measure (\<lambda>(ops, segments, m). if settled ops m 0 segments then 0 else 1)"
    by simp
qed

declare ensure_increasing_positions.simps [simp del]

text \<open>The shape of the result, as the claims state it.\<close>

definition no_overlap :: "word list \<Rightarrow> bool" where
  "no_overlap ws = (\<forall>i. Suc i < length ws \<longrightarrow> w_end (ws ! i) \<le> w_start (ws ! Suc i))"

definition non_negative :: "word list \<Rightarrow> bool" where
  "non_negative ws = list_all (\<lambda>w. 0 \<le> w_start w \<and> 0 \<le> w_end w) ws"

definition lasting :: "rat \<Rightarrow> word list \<Rightarrow> bool" where
  "lasting d ws = list_all (\<lambda>w. d \<le> w_end w - w_start w) ws"

subsubsection \<open>One recursive call is enough\<close>

lemma adjust_loop_rerun:
  assumes "adjust_loop ops m [] 0 False segments = Inr (segments', hm)"
  shows "adjust_loop ops m [] 0 False segments' = Inr (segments', False)"
proof -
  have st: "settled ops m 0 segments'"
    using adjust_loop_settles [OF assms] by (simp add: last_end_def)
  show ?thesis using adjust_loop_settled [OF st, of "[]" False] by simp
qed

lemma ensure_increasing_positions_unfold:
  "ensure_increasing_positions ops segments m =
     (case adjust_loop ops m [] 0 False segments of
        Inl e \<Rightarrow> Inl e
      | Inr (segments', hm) \<Rightarrow> round_loop ops 0 segments')"
proof (cases "adjust_loop ops m [] 0 False segments")
  case (Inl e)
  then show ?thesis by (simp add: ensure_increasing_positions.simps)
next
  case (Inr r)
  obtain segments' hm where r: "r = (segments', hm)" by (cases r)
  have again: "adjust_loop ops m [] 0 False segments' = Inr (segments', False)"
    using adjust_loop_rerun [of ops m segments segments' hm] Inr r by simp
  have "ensure_increasing_positions ops segments' m = round_loop ops 0 segments'"
    by (subst ensure_increasing_positions.simps) (simp add: again)
  then show ?thesis
    using Inr r by (subst ensure_increasing_positions.simps) simp
qed

text \<open>
  Claim C7. \<^verbatim>\<open>ensure_increasing_positions\<close> terminates on every word list: the function is
  total (its recursion is accepted with the measure above), and the recursion reaches its fixed
  point after at most one recursive call. Whenever the first loop runs to its end, a second run
  over its result changes nothing and pulls no end back, so the result of the function is the
  second loop applied to the result of the first run of the first loop; when the first loop
  fails its assertion, the function fails with it.
\<close>

theorem ensure_increasing_positions_terminates:
  "ensure_increasing_positions ops segments m =
     (case adjust_loop ops m [] 0 False segments of
        Inl e \<Rightarrow> Inl e
      | Inr (segments', hm) \<Rightarrow> round_loop ops 0 segments')
   \<and> (\<forall>segments' hm. adjust_loop ops m [] 0 False segments = Inr (segments', hm) \<longrightarrow>
         adjust_loop ops m [] 0 False segments' = Inr (segments', False))"
  using ensure_increasing_positions_unfold [of ops segments m]
    adjust_loop_rerun [of ops m segments]
  by blast

theorem ensure_increasing_positions_terminates_witness:
  "adjust_loop exact_ops (1 / 8) [] 0 False
     [\<lparr>w_text = str ''a'', w_start = 0, w_end = 2\<rparr>,
      \<lparr>w_text = str ''b'', w_start = 3 / 2, w_end = 3\<rparr>]
   = Inr ([\<lparr>w_text = str ''a'', w_start = 0, w_end = 7 / 4\<rparr>,
           \<lparr>w_text = str ''b'', w_start = 7 / 4, w_end = 3\<rparr>], True)
   \<and> adjust_loop exact_ops (1 / 8) [] 0 False
     [\<lparr>w_text = str ''a'', w_start = 0, w_end = 7 / 4\<rparr>,
      \<lparr>w_text = str ''b'', w_start = 7 / 4, w_end = 3\<rparr>]
   = Inr ([\<lparr>w_text = str ''a'', w_start = 0, w_end = 7 / 4\<rparr>,
           \<lparr>w_text = str ''b'', w_start = 7 / 4, w_end = 3\<rparr>], False)
   \<and> ensure_increasing_positions exact_ops
     [\<lparr>w_text = str ''a'', w_start = 0, w_end = 2\<rparr>,
      \<lparr>w_text = str ''b'', w_start = 3 / 2, w_end = 3\<rparr>] (1 / 8)
   = Inr [\<lparr>w_text = str ''a'', w_start = 0, w_end = 7 / 4\<rparr>,
          \<lparr>w_text = str ''b'', w_start = 7 / 4, w_end = 3\<rparr>]"
proof -
  let ?W = "[\<lparr>w_text = str ''a'', w_start = 0, w_end = 2\<rparr>,
             \<lparr>w_text = str ''b'', w_start = 3 / 2, w_end = 3\<rparr>]"
  let ?W' = "[\<lparr>w_text = str ''a'', w_start = 0, w_end = 7 / 4\<rparr>,
              \<lparr>w_text = str ''b'', w_start = 7 / 4, w_end = 3\<rparr>]"
  have first: "adjust_loop exact_ops (1 / 8) [] 0 False ?W = Inr (?W', True)"
    by code_simp
  have final: "round_loop exact_ops 0 ?W' = Inr ?W'"
    by code_simp
  note T = ensure_increasing_positions_terminates [of exact_ops ?W "1 / 8"]
  have again: "adjust_loop exact_ops (1 / 8) [] 0 False ?W' = Inr (?W', False)"
    using T first by blast
  from T have "ensure_increasing_positions exact_ops ?W (1 / 8) =
      (case adjust_loop exact_ops (1 / 8) [] 0 False ?W of
         Inl e \<Rightarrow> Inl e
       | Inr (segments', hm) \<Rightarrow> round_loop exact_ops 0 segments')"
    by (rule conjunct1)
  then have "ensure_increasing_positions exact_ops ?W (1 / 8) = Inr ?W'"
    by (simp only: first sum.case prod.case final)
  with first again show ?thesis by (intro conjI)
qed

subsubsection \<open>The assertion on the first word\<close>

lemma adjust_loop_no_assert:
  "before \<noteq> [] \<Longrightarrow> \<exists>out hm'. adjust_loop ops m before pe hm rest = Inr (out, hm')"
proof (induction rest arbitrary: before pe hm)
  case Nil
  then show ?case by simp
next
  case (Cons seg rest)
  have step: "\<And>b p h. b \<noteq> [] \<Longrightarrow> \<exists>out hm'. adjust_loop ops m b p h rest = Inr (out, hm')"
    using Cons.IH by blast
  show ?case using Cons.prems
    by (simp add: Let_def step)
qed

lemma round_loop_error:
  "round_loop ops p ws = Inl e \<Longrightarrow> e \<noteq> AssertionError ''i > 0''"
  by (induction ws arbitrary: p) (auto simp: Let_def split: if_splits sum.splits)

text \<open>
  Claim C10. The first word is compared with an initial \<^verbatim>\<open>previous_end\<close> of 0, and the repair
  branch asserts \<^verbatim>\<open>i > 0\<close>. On a non-empty word list the function fails that assertion exactly
  when the first word starts at a negative time: with a first start of at least 0 the assertion
  is never violated (neither for the first word nor later, nor in the recursive call), and with
  a negative first start the function fails the assertion instead of repairing the word.
\<close>

theorem ensure_increasing_positions_first_start:
  "ensure_increasing_positions ops (w # ws) m = Inl (AssertionError ''i > 0'') \<longleftrightarrow> w_start w < 0"
proof (cases "w_start w < 0")
  case True
  then show ?thesis by (simp add: ensure_increasing_positions_unfold)
next
  case False
  define w' where "w' = min_duration_step ops m w"
  obtain out hm' where run: "adjust_loop ops m ([] @ [w']) (w_end w') False ws = Inr (out, hm')"
    using adjust_loop_no_assert [of "[] @ [w']" ops m "w_end w'" False ws] by auto
  then have "ensure_increasing_positions ops (w # ws) m = round_loop ops 0 out"
    using False by (simp add: ensure_increasing_positions_unfold w'_def Let_def)
  then show ?thesis using False round_loop_error [of ops 0 out] by auto
qed

subsubsection \<open>The words after enforcement\<close>

text \<open>
  What the assertions of the second loop check: each word starts at or after the end of the one
  before it (the first at or after \<open>p\<close>) and ends after it starts.
\<close>

fun ordered :: "rat \<Rightarrow> word list \<Rightarrow> bool" where
  "ordered p [] = True"
| "ordered p (w # ws) = (p \<le> w_start w \<and> w_start w < w_end w \<and> ordered (w_end w) ws)"

text \<open>What the second loop does to a word (lines 771-772).\<close>

definition round_word :: "float_ops \<Rightarrow> word \<Rightarrow> word" where
  "round_word ops seg =
     seg\<lparr>w_start := fl_round2 ops (w_start seg), w_end := fl_round2 ops (w_end seg)\<rparr>"

lemma round_loop_ordered:
  "round_loop ops p ws = Inr ws' \<Longrightarrow> ordered p ws'"
proof (induction ws arbitrary: p ws')
  case Nil
  then show ?case by simp
next
  case (Cons w ws)
  define w' where
    "w' = w\<lparr>w_start := fl_round2 ops (w_start w), w_end := fl_round2 ops (w_end w)\<rparr>"
  from Cons.prems obtain r where r: "round_loop ops (w_end w') ws = Inr r" and ws': "ws' = w' # r"
    and a: "p \<le> w_start w'" "w_start w' < w_end w'"
    by (auto simp: w'_def Let_def split: if_splits sum.splits)
  from Cons.IH [OF r] ws' a show ?case by simp
qed

lemma round_loop_map:
  "round_loop ops p ws = Inr ws' \<Longrightarrow> ws' = map (round_word ops) ws"
proof (induction ws arbitrary: p ws')
  case Nil
  then show ?case by simp
next
  case (Cons w ws)
  from Cons.prems obtain r
    where r: "round_loop ops (w_end (round_word ops w)) ws = Inr r"
      and ws': "ws' = round_word ops w # r"
    by (auto simp: round_word_def Let_def split: if_splits sum.splits)
  from Cons.IH [OF r] ws' show ?case by simp
qed

lemma ordered_first: "ordered p ws \<Longrightarrow> ws \<noteq> [] \<Longrightarrow> p \<le> w_start (ws ! 0)"
  by (cases ws) auto

lemma ordered_no_overlap: "ordered p ws \<Longrightarrow> no_overlap ws"
proof (induction ws arbitrary: p)
  case Nil
  then show ?case by (simp add: no_overlap_def)
next
  case (Cons w ws)
  then have tl: "no_overlap ws" and o: "ordered (w_end w) ws" by auto
  show ?case unfolding no_overlap_def
  proof (intro allI impI)
    fix i assume i: "Suc i < length (w # ws)"
    show "w_end ((w # ws) ! i) \<le> w_start ((w # ws) ! Suc i)"
    proof (cases i)
      case 0
      with i have "ws \<noteq> []" by auto
      with ordered_first [OF o] 0 show ?thesis by simp
    next
      case (Suc j)
      with i tl show ?thesis by (simp add: no_overlap_def)
    qed
  qed
qed

lemma ordered_non_negative: "ordered p ws \<Longrightarrow> 0 \<le> p \<Longrightarrow> non_negative ws"
  by (induction ws arbitrary: p) (auto simp: non_negative_def)

lemma ordered_positive: "ordered p ws \<Longrightarrow> list_all (\<lambda>w. w_start w < w_end w) ws"
  by (induction ws arbitrary: p) auto

text \<open>
  Claim C3 (amended). Whenever \<^verbatim>\<open>ensure_increasing_positions(words, min_duration)\<close> returns,
  every adjacent pair satisfies \<open>word[i+1].start \<ge> word[i].end\<close>, all starts and ends are
  non-negative, and every word ends after it starts. The minimum duration is enforced before
  the times are rounded to two decimals: the returned words are the roundings of words that
  follow one another and of which each has \<open>end \<ge> start + min_duration\<close> (the sum as the
  machine computes it). This holds for every behaviour of the float operations.
\<close>

theorem ensure_increasing_positions_result:
  assumes "ensure_increasing_positions ops segments m = Inr ws"
  shows "no_overlap ws \<and> non_negative ws \<and> list_all (\<lambda>w. w_start w < w_end w) ws
     \<and> (\<exists>pre. settled ops m 0 pre \<and> ws = map (round_word ops) pre)"
proof -
  from assms obtain segments' hm
    where run: "adjust_loop ops m [] 0 False segments = Inr (segments', hm)"
      and fin: "round_loop ops 0 segments' = Inr ws"
    unfolding ensure_increasing_positions_unfold [of ops segments m]
    by (auto split: sum.splits)
  have st: "settled ops m 0 segments'"
    using adjust_loop_settles [OF run] by (simp add: last_end_def)
  have ord: "ordered 0 ws" using fin by (rule round_loop_ordered)
  from ord have "no_overlap ws" by (rule ordered_no_overlap)
  moreover from ord have "non_negative ws" by (rule ordered_non_negative) simp
  moreover from ord have "list_all (\<lambda>w. w_start w < w_end w) ws" by (rule ordered_positive)
  moreover from fin have "ws = map (round_word ops) segments'" by (rule round_loop_map)
  ultimately show ?thesis using st by blast
qed

theorem ensure_increasing_positions_result_witness:
  "ensure_increasing_positions exact_ops
     [\<lparr>w_text = str ''a'', w_start = 0, w_end = 2\<rparr>,
      \<lparr>w_text = str ''b'', w_start = 3 / 2, w_end = 3\<rparr>] (1 / 8)
   = Inr [\<lparr>w_text = str ''a'', w_start = 0, w_end = 7 / 4\<rparr>,
          \<lparr>w_text = str ''b'', w_start = 7 / 4, w_end = 3\<rparr>]
   \<and> no_overlap [\<lparr>w_text = str ''a'', w_start = 0, w_end = 7 / 4\<rparr>,
          \<lparr>w_text = str ''b'', w_start = 7 / 4, w_end = 3\<rparr>]
   \<and> non_negative [\<lparr>w_text = str ''a'', w_start = 0, w_end = 7 / 4\<rparr>,
          \<lparr>w_text = str ''b'', w_start = 7 / 4, w_end = 3\<rparr>]
   \<and> list_all (\<lambda>w. w_start w < w_end w)
         [\<lparr>w_text = str ''a'', w_start = 0, w_end = 7 / 4\<rparr>,
          \<lparr>w_text = str ''b'', w_start = 7 / 4, w_end = 3\<rparr>]"
proof -
  let ?W = "[\<lparr>w_text = str ''a'', w_start = 0, w_end = 2\<rparr>,
             \<lparr>w_text = str ''b'', w_start = 3 / 2, w_end = 3\<rparr>]"
  let ?W' = "[\<lparr>w_text = str ''a'', w_start = 0, w_end = 7 / 4\<rparr>,
              \<lparr>w_text = str ''b'', w_start = 7 / 4, w_end = 3\<rparr>]"
  have run: "ensure_increasing_positions exact_ops ?W (1 / 8) = Inr ?W'"
    by code_simp
  from ensure_increasing_positions_result [OF run] run
  show ?thesis by blast
qed

text \<open>
  The minimum duration is not kept by the rounding: with \<open>min_duration = 0.251953125\<close>
  (\<open>129/512\<close>) a word of duration 0 that starts at 0 gets the end \<open>0.251953125\<close>, which the
  second loop rounds to \<open>0.25\<close>. All these numbers are doubles, and the operations of the
  machine are exact on them.
\<close>

theorem ensure_increasing_positions_short_word:
  "ensure_increasing_positions exact_ops [\<lparr>w_text = [], w_start = 0, w_end = 0\<rparr>] (129 / 512)
     = Inr [\<lparr>w_text = [], w_start = 0, w_end = 1 / 4\<rparr>]
   \<and> \<not> lasting (129 / 512) [\<lparr>w_text = [], w_start = 0, w_end = 1 / 4\<rparr>]"
  by code_simp

subsection \<open>Word segmentation: \<^verbatim>\<open>split_tokens_on_unicode\<close>, \<^verbatim>\<open>split_tokens_on_spaces\<close>\<close>

text \<open>
  The tokenizer belongs to the \<^verbatim>\<open>whisper\<close> package; the functions here take it as a
  parameter: the ids its attributes give, and its \<^verbatim>\<open>decode_with_timestamps\<close>.
\<close>

record tokenizer =
  timestamp_begin :: int
  eot :: int
  sot :: int
  decode_with_timestamps :: "int list \<Rightarrow> pystr"

text \<open>
  \<^verbatim>\<open>str.strip()\<close> removes the white space of \<^verbatim>\<open>str.isspace\<close> at both ends;
  \<^verbatim>\<open>s.startswith(p)\<close> is \<^term>\<open>prefix p s\<close> and \<^verbatim>\<open>a in b\<close> on strings is
  \<^term>\<open>sublist a b\<close>.
\<close>

definition is_space :: "int \<Rightarrow> bool" where
  "is_space c = (c \<in> set [9, 10, 11, 12, 13, 28, 29, 30, 31, 32, 133, 160, 5760,
     8192, 8193, 8194, 8195, 8196, 8197, 8198, 8199, 8200, 8201, 8202,
     8232, 8233, 8239, 8287, 12288])"

definition strip :: "pystr \<Rightarrow> pystr" where
  "strip s = rev (dropWhile is_space (rev (dropWhile is_space s)))"

text \<open>
  \<^verbatim>\<open>_punctuation\<close>: \<^verbatim>\<open>string.punctuation\<close> without the hyphen and the apostrophe, as code
  points.
\<close>

definition punctuation_chars :: pystr where
  "punctuation_chars = [33, 34, 35, 36, 37, 38, 40, 41, 42, 43, 44, 46, 47, 58, 59, 60, 61,
     62, 63, 64, 91, 92, 93, 94, 95, 96, 123, 124, 125, 126]"

definition replacement_char :: int where
  "replacement_char = 65533"

text \<open>
  An element of a word's span in \<^verbatim>\<open>word_tokens\<close>: a decoded string (with
  \<^verbatim>\<open>tokens_as_string\<close>), a token, or a nested list of tokens (what
  \<^verbatim>\<open>word_tokens[-1].append(current_tokens)\<close> adds when \<^verbatim>\<open>tokens_as_string\<close> is off).
\<close>

datatype item = Str pystr | Tok int | Toks "int list"

text \<open>
  The loop of \<^verbatim>\<open>split_tokens_on_unicode\<close> (lines 702-719) with its three local lists.
\<close>

fun unicode_loop ::
  "tokenizer \<Rightarrow> bool \<Rightarrow> bool \<Rightarrow> bool \<Rightarrow> pystr list \<Rightarrow> item list list \<Rightarrow> int list \<Rightarrow> int list
   \<Rightarrow> error + (pystr list \<times> item list list)" where
  "unicode_loop tk tokens_as_string remove_punctuation isolate words word_tokens current [] =
     Inr (words, word_tokens)"
| "unicode_loop tk tokens_as_string remove_punctuation isolate words word_tokens current
       (token # rest) =
     (let current' = current @ [token];
          decoded = decode_with_timestamps tk current'
      in
        if replacement_char \<notin> set decoded then
          (let punctuation = (\<not> isolate \<and> sublist (strip decoded) punctuation_chars) in
           if punctuation then
             (let words1 = (if words = [] then [[]] else words);
                  word_tokens1 = (if words = [] then [[]] else word_tokens);
                  words2 = (if \<not> remove_punctuation
                            then butlast words1 @ [last words1 @ decoded] else words1)
              in
                if word_tokens1 = [] then Inl IndexError
                else unicode_loop tk tokens_as_string remove_punctuation isolate words2
                       (butlast word_tokens1 @
                          [last word_tokens1 @
                             [if tokens_as_string then Str (strip decoded) else Toks current']])
                       [] rest)
           else
             unicode_loop tk tokens_as_string remove_punctuation isolate
               (words @ [decoded])
               (word_tokens @
                  [if tokens_as_string then [Str (strip decoded)] else map Tok current'])
               [] rest)
        else
          unicode_loop tk tokens_as_string remove_punctuation isolate words word_tokens
            current' rest)"

definition split_tokens_on_unicode ::
  "int list \<Rightarrow> tokenizer \<Rightarrow> bool \<Rightarrow> bool \<Rightarrow> bool \<Rightarrow> error + (pystr list \<times> item list list)" where
  "split_tokens_on_unicode tokens tk tokens_as_string remove_punctuation_from_words
       isolate_punctuations =
     unicode_loop tk tokens_as_string remove_punctuation_from_words isolate_punctuations
       [] [] [] tokens"

text \<open>
  Lines 731-732. \<^verbatim>\<open>special\<close> reads the first element of the span; \<^verbatim>\<open>previous_special\<close>
  is parsed as \<^verbatim>\<open>(i > 0 and ...) if tokens_as_string else (...)\<close>, so without
  \<^verbatim>\<open>tokens_as_string\<close> it reads \<^verbatim>\<open>subword_tokens_list[i-1]\<close> also for \<open>i = 0\<close>, where the
  index \<open>-1\<close> is the last span.
\<close>

definition is_special :: "tokenizer \<Rightarrow> bool \<Rightarrow> item list \<Rightarrow> error + bool" where
  "is_special tk tokens_as_string subword_tokens =
     (case subword_tokens of
        [] \<Rightarrow> Inl IndexError
      | x # _ \<Rightarrow>
          if tokens_as_string then
            (case x of Str t \<Rightarrow> Inr (prefix (str ''<|'') t) | _ \<Rightarrow> Inl AttributeError)
          else
            (case x of Tok t \<Rightarrow> Inr (eot tk \<le> t) | _ \<Rightarrow> Inl TypeError))"

definition previous_special ::
  "tokenizer \<Rightarrow> bool \<Rightarrow> item list list \<Rightarrow> nat \<Rightarrow> error + bool" where
  "previous_special tk tokens_as_string subword_tokens_list i =
     (if tokens_as_string then
        (if 0 < i then
           (if i - 1 < length subword_tokens_list
            then is_special tk True (subword_tokens_list ! (i - 1)) else Inl IndexError)
         else Inr False)
      else
        (if subword_tokens_list = [] \<or> length subword_tokens_list < i then Inl IndexError
         else is_special tk False
                (if i = 0 then last subword_tokens_list else subword_tokens_list ! (i - 1))))"

text \<open>
  The loop of \<^verbatim>\<open>split_tokens_on_spaces\<close> (lines 730-740). The spans appended to
  \<^verbatim>\<open>word_tokens\<close> are the list objects of \<^verbatim>\<open>subword_tokens_list\<close>, and \<^verbatim>\<open>extend\<close> mutates
  them; it only adds elements at their end, and the loop reads only the first element of
  \<^verbatim>\<open>subword_tokens_list[i-1]\<close>, so the list as returned by \<^verbatim>\<open>split_tokens_on_unicode\<close>
  gives the same values.
\<close>

fun spaces_loop ::
  "tokenizer \<Rightarrow> bool \<Rightarrow> item list list \<Rightarrow> nat \<Rightarrow> pystr list \<Rightarrow> item list list
   \<Rightarrow> (pystr \<times> item list) list \<Rightarrow> error + (pystr list \<times> item list list)" where
  "spaces_loop tk tokens_as_string subword_tokens_list i words word_tokens [] =
     Inr (words, word_tokens)"
| "spaces_loop tk tokens_as_string subword_tokens_list i words word_tokens
       ((subword, subword_tokens) # rest) =
     (case is_special tk tokens_as_string subword_tokens of
        Inl e \<Rightarrow> Inl e
      | Inr special \<Rightarrow>
     (case previous_special tk tokens_as_string subword_tokens_list i of
        Inl e \<Rightarrow> Inl e
      | Inr previous \<Rightarrow>
          (let with_space = prefix (str '' '') subword;
               punctuation = sublist (strip subword) punctuation_chars
           in
             if special \<or> (with_space \<and> \<not> punctuation) \<or> previous then
               spaces_loop tk tokens_as_string subword_tokens_list (i + 1)
                 (words @ [strip subword]) (word_tokens @ [subword_tokens]) rest
             else if words = [] \<or> word_tokens = [] then Inl IndexError
             else
               spaces_loop tk tokens_as_string subword_tokens_list (i + 1)
                 (butlast words @ [last words @ strip subword])
                 (butlast word_tokens @ [last word_tokens @ subword_tokens]) rest)))"

definition split_tokens_on_spaces ::
  "int list \<Rightarrow> tokenizer \<Rightarrow> bool \<Rightarrow> bool \<Rightarrow> error + (pystr list \<times> item list list)" where
  "split_tokens_on_spaces tokens tk tokens_as_string remove_punctuation_from_words =
     (case split_tokens_on_unicode tokens tk tokens_as_string remove_punctuation_from_words False of
        Inl e \<Rightarrow> Inl e
      | Inr (subwords, subword_tokens_list) \<Rightarrow>
          spaces_loop tk tokens_as_string subword_tokens_list 0 [] []
            (zip subwords subword_tokens_list))"

text \<open>
  The tokens a list of spans holds, read in order, and the tokens the unicode loop still holds
  in \<^verbatim>\<open>current_tokens\<close> when it ends: those of a trailing unit whose decoded text never
  got free of U+FFFD. \<^verbatim>\<open>first_unit\<close> is the decoded text of the first complete unit.
\<close>

fun item_tokens :: "item \<Rightarrow> int list" where
  "item_tokens (Str t) = []"
| "item_tokens (Tok t) = [t]"
| "item_tokens (Toks ts) = ts"

definition span_tokens :: "item list list \<Rightarrow> int list" where
  "span_tokens word_tokens = concat (map item_tokens (concat word_tokens))"

fun pending :: "tokenizer \<Rightarrow> int list \<Rightarrow> int list \<Rightarrow> int list" where
  "pending tk current [] = current"
| "pending tk current (token # rest) =
     (if replacement_char \<notin> set (decode_with_timestamps tk (current @ [token]))
      then pending tk [] rest else pending tk (current @ [token]) rest)"

fun first_unit :: "tokenizer \<Rightarrow> int list \<Rightarrow> int list \<Rightarrow> (pystr \<times> int list) option" where
  "first_unit tk current [] = None"
| "first_unit tk current (token # rest) =
     (if replacement_char \<notin> set (decode_with_timestamps tk (current @ [token]))
      then Some (decode_with_timestamps tk (current @ [token]), rest)
      else first_unit tk (current @ [token]) rest)"

text \<open>
  A small tokenizer for the examples, with the ids of the multilingual Whisper vocabulary for
  the special tokens: every id from \<open>timestamp_begin\<close> on decodes to a timestamp marker, ids
  10 and 11 are the two halves of one character (each alone decodes to U+FFFD), and a few ids
  are words and punctuation.
\<close>

definition example_piece :: "int \<Rightarrow> pystr" where
  "example_piece t =
     (if 50364 \<le> t then str ''<|ts|>''
      else if t = 50257 then str ''<|endoftext|>''
      else if t = 1 then str '' Hello''
      else if t = 2 then str '' world''
      else if t = 3 then str '',''
      else if t = 4 then str '' ,''
      else if t = 5 then str ''ly''
      else [replacement_char])"

fun example_decode :: "int list \<Rightarrow> pystr" where
  "example_decode [] = []"
| "example_decode (t # ts) =
     (if t = 10 then
        (case ts of
           [] \<Rightarrow> [replacement_char]
         | u # us \<Rightarrow> if u = 11 then 20013 # example_decode us
                    else replacement_char # example_decode ts)
      else example_piece t @ example_decode ts)"

definition example_tokenizer :: tokenizer where
  "example_tokenizer =
     \<lparr>timestamp_begin = 50364, eot = 50257, sot = 50258,
      decode_with_timestamps = example_decode\<rparr>"

subsubsection \<open>The tokens of the spans\<close>

lemma span_tokens_append [simp]:
  "span_tokens (xs @ ys) = span_tokens xs @ span_tokens ys"
  by (simp add: span_tokens_def)

lemma span_tokens_Nil [simp]: "span_tokens [] = []" "span_tokens [[]] = []"
  by (simp_all add: span_tokens_def)

lemma span_tokens_Tok [simp]: "span_tokens [map Tok ts] = ts"
  by (induction ts) (simp_all add: span_tokens_def)

lemma span_tokens_Tok_snoc [simp]: "span_tokens [map Tok ts @ [Tok t]] = ts @ [t]"
  using span_tokens_Tok [of "ts @ [t]"] by simp

lemma span_tokens_extend:
  "xs \<noteq> [] \<Longrightarrow> span_tokens (butlast xs @ [last xs @ ys]) = span_tokens xs @ span_tokens [ys]"
proof -
  assume "xs \<noteq> []"
  then have "xs = butlast xs @ [last xs]" by simp
  then have "span_tokens xs = span_tokens (butlast xs) @ span_tokens [last xs]"
    by (metis span_tokens_append)
  then show ?thesis by (simp add: span_tokens_def)
qed

text \<open>One iteration of the unicode loop, by the case it takes.\<close>

lemma unicode_loop_incomplete:
  "replacement_char \<in> set (decode_with_timestamps tk (cur @ [token])) \<Longrightarrow>
   unicode_loop tk tas rp ip words wts cur (token # rest) =
   unicode_loop tk tas rp ip words wts (cur @ [token]) rest"
  by (simp add: Let_def)

lemma unicode_loop_word:
  "replacement_char \<notin> set (decode_with_timestamps tk (cur @ [token])) \<Longrightarrow>
   ip \<or> \<not> sublist (strip (decode_with_timestamps tk (cur @ [token]))) punctuation_chars \<Longrightarrow>
   unicode_loop tk tas rp ip words wts cur (token # rest) =
   unicode_loop tk tas rp ip (words @ [decode_with_timestamps tk (cur @ [token])])
     (wts @ [if tas then [Str (strip (decode_with_timestamps tk (cur @ [token])))]
             else map Tok (cur @ [token])]) [] rest"
  by (auto simp add: Let_def)

lemma unicode_loop_punct:
  "replacement_char \<notin> set (decode_with_timestamps tk (cur @ [token])) \<Longrightarrow>
   \<not> ip \<Longrightarrow> sublist (strip (decode_with_timestamps tk (cur @ [token]))) punctuation_chars \<Longrightarrow>
   words1 = (if words = [] then [[]] else words) \<Longrightarrow>
   wts1 = (if words = [] then [[]] else wts) \<Longrightarrow>
   wts1 \<noteq> [] \<Longrightarrow>
   unicode_loop tk tas rp ip words wts cur (token # rest) =
   unicode_loop tk tas rp ip
     (if \<not> rp then butlast words1 @ [last words1 @ decode_with_timestamps tk (cur @ [token])]
      else words1)
     (butlast wts1 @
        [last wts1 @ [if tas then Str (strip (decode_with_timestamps tk (cur @ [token])))
                      else Toks (cur @ [token])]]) [] rest"
  by (simp add: Let_def)

lemma unicode_loop_length:
  "unicode_loop tk tas rp ip words wts cur tokens = Inr (words', wts') \<Longrightarrow>
   length words = length wts \<Longrightarrow> length words' = length wts'"
proof (induction tokens arbitrary: words wts cur)
  case Nil
  then show ?case by simp
next
  case (Cons token rest)
  let ?d = "decode_with_timestamps tk (cur @ [token])"
  show ?case
  proof (cases "replacement_char \<in> set ?d")
    case True
    from Cons.prems(1) have "unicode_loop tk tas rp ip words wts (cur @ [token]) rest = Inr (words', wts')"
      unfolding unicode_loop_incomplete [OF True] .
    from Cons.IH [OF this Cons.prems(2)] show ?thesis .
  next
    case complete: False
    show ?thesis
    proof (cases "ip \<or> \<not> sublist (strip ?d) punctuation_chars")
      case True
      from Cons.prems(1) have
        "unicode_loop tk tas rp ip (words @ [?d])
           (wts @ [if tas then [Str (strip ?d)] else map Tok (cur @ [token])]) [] rest
         = Inr (words', wts')"
        unfolding unicode_loop_word [OF complete True] .
      from Cons.IH [OF this] Cons.prems(2) show ?thesis by simp
    next
      case False
      then have punct: "\<not> ip" "sublist (strip ?d) punctuation_chars" by auto
      define words1 where "words1 = (if words = [] then [[]] else words)"
      define wts1 where "wts1 = (if words = [] then [[]] else wts)"
      have len1: "length words1 = length wts1" and ne: "words1 \<noteq> []" "wts1 \<noteq> []"
        using Cons.prems(2) by (auto simp: words1_def wts1_def)
      from Cons.prems(1) have
        "unicode_loop tk tas rp ip
           (if \<not> rp then butlast words1 @ [last words1 @ ?d] else words1)
           (butlast wts1 @ [last wts1 @ [if tas then Str (strip ?d) else Toks (cur @ [token])]])
           [] rest = Inr (words', wts')"
        unfolding unicode_loop_punct [OF complete punct words1_def wts1_def ne(2)] .
      from Cons.IH [OF this] len1 ne show ?thesis by simp
    qed
  qed
qed

lemma unicode_loop_total:
  "length words = length wts \<Longrightarrow> \<exists>r. unicode_loop tk tas rp ip words wts cur tokens = Inr r"
proof (induction tokens arbitrary: words wts cur)
  case Nil
  then show ?case by simp
next
  case (Cons token rest)
  let ?d = "decode_with_timestamps tk (cur @ [token])"
  show ?case
  proof (cases "replacement_char \<in> set ?d")
    case True
    show ?thesis
      unfolding unicode_loop_incomplete [OF True] using Cons.prems by (rule Cons.IH)
  next
    case complete: False
    show ?thesis
    proof (cases "ip \<or> \<not> sublist (strip ?d) punctuation_chars")
      case True
      have "length (words @ [?d]) =
          length (wts @ [if tas then [Str (strip ?d)] else map Tok (cur @ [token])])"
        using Cons.prems by simp
      then show ?thesis
        unfolding unicode_loop_word [OF complete True] by (rule Cons.IH)
    next
      case False
      then have punct: "\<not> ip" "sublist (strip ?d) punctuation_chars" by auto
      define words1 where "words1 = (if words = [] then [[]] else words)"
      define wts1 where "wts1 = (if words = [] then [[]] else wts)"
      have len1: "length words1 = length wts1" and ne: "words1 \<noteq> []" "wts1 \<noteq> []"
        using Cons.prems by (auto simp: words1_def wts1_def)
      have "length (if \<not> rp then butlast words1 @ [last words1 @ ?d] else words1) =
          length (butlast wts1 @ [last wts1 @ [if tas then Str (strip ?d) else Toks (cur @ [token])]])"
        using len1 ne by simp
      then show ?thesis
        unfolding unicode_loop_punct [OF complete punct words1_def wts1_def ne(2)]
        by (rule Cons.IH)
    qed
  qed
qed

lemma unicode_loop_tokens:
  "unicode_loop tk False rp ip words wts cur tokens = Inr (words', wts') \<Longrightarrow>
   length words = length wts \<Longrightarrow>
   span_tokens wts' @ pending tk cur tokens = span_tokens wts @ cur @ tokens"
proof (induction tokens arbitrary: words wts cur)
  case Nil
  then show ?case by simp
next
  case (Cons token rest)
  let ?d = "decode_with_timestamps tk (cur @ [token])"
  show ?case
  proof (cases "replacement_char \<in> set ?d")
    case True
    from Cons.prems(1) have "unicode_loop tk False rp ip words wts (cur @ [token]) rest = Inr (words', wts')"
      unfolding unicode_loop_incomplete [OF True] .
    from Cons.IH [OF this Cons.prems(2)] True show ?thesis by simp
  next
    case complete: False
    show ?thesis
    proof (cases "ip \<or> \<not> sublist (strip ?d) punctuation_chars")
      case True
      from Cons.prems(1) have
        "unicode_loop tk False rp ip (words @ [?d])
           (wts @ [if False then [Str (strip ?d)] else map Tok (cur @ [token])]) [] rest
         = Inr (words', wts')"
        unfolding unicode_loop_word [OF complete True] .
      from Cons.IH [OF this] Cons.prems(2) complete show ?thesis by simp
    next
      case False
      then have punct: "\<not> ip" "sublist (strip ?d) punctuation_chars" by auto
      define words1 where "words1 = (if words = [] then [[]] else words)"
      define wts1 where "wts1 = (if words = [] then [[]] else wts)"
      have len1: "length words1 = length wts1" and ne: "words1 \<noteq> []" "wts1 \<noteq> []"
        using Cons.prems(2) by (auto simp: words1_def wts1_def)
      have same: "span_tokens wts1 = span_tokens wts"
        using Cons.prems(2) by (auto simp: wts1_def)
      from Cons.prems(1) have run:
        "unicode_loop tk False rp ip
           (if \<not> rp then butlast words1 @ [last words1 @ ?d] else words1)
           (butlast wts1 @ [last wts1 @ [if False then Str (strip ?d) else Toks (cur @ [token])]])
           [] rest = Inr (words', wts')"
        unfolding unicode_loop_punct [OF complete punct words1_def wts1_def ne(2)] .
      have "span_tokens wts' @ pending tk [] rest =
          span_tokens (butlast wts1 @ [last wts1 @ [Toks (cur @ [token])]]) @ [] @ rest"
        using Cons.IH [OF run] len1 ne by simp
      also have "\<dots> = span_tokens wts @ (cur @ [token]) @ rest"
        using span_tokens_extend [OF ne(2), of "[Toks (cur @ [token])]"] same
        by (simp add: span_tokens_def)
      finally show ?thesis using complete by simp
    qed
  qed
qed

text \<open>One iteration of the loop of \<^verbatim>\<open>split_tokens_on_spaces\<close>, by the branch it takes.\<close>

lemma spaces_loop_open:
  "is_special tk tas subword_tokens = Inr special \<Longrightarrow>
   previous_special tk tas stl i = Inr previous \<Longrightarrow>
   special \<or> (prefix (str '' '') subword \<and> \<not> sublist (strip subword) punctuation_chars)
     \<or> previous \<Longrightarrow>
   spaces_loop tk tas stl i words wts ((subword, subword_tokens) # rest) =
   spaces_loop tk tas stl (i + 1) (words @ [strip subword]) (wts @ [subword_tokens]) rest"
  by (auto simp: Let_def)

lemma spaces_loop_merge:
  "is_special tk tas subword_tokens = Inr special \<Longrightarrow>
   previous_special tk tas stl i = Inr previous \<Longrightarrow>
   \<not> (special \<or> (prefix (str '' '') subword \<and> \<not> sublist (strip subword) punctuation_chars)
     \<or> previous) \<Longrightarrow>
   spaces_loop tk tas stl i words wts ((subword, subword_tokens) # rest) =
   (if words = [] \<or> wts = [] then Inl IndexError
    else spaces_loop tk tas stl (i + 1) (butlast words @ [last words @ strip subword])
           (butlast wts @ [last wts @ subword_tokens]) rest)"
  by (auto simp: Let_def)

lemma concat_extend_last:
  "xs \<noteq> [] \<Longrightarrow> concat (butlast xs @ [last xs @ ys]) = concat xs @ ys"
proof -
  assume "xs \<noteq> []"
  then have "xs = butlast xs @ [last xs]" by simp
  then have "concat xs = concat (butlast xs) @ last xs"
    by (metis concat.simps(1,2) concat_append append_Nil2)
  then show ?thesis by simp
qed

lemma spaces_loop_concat:
  "spaces_loop tk tas stl i words wts rest = Inr (words', wts') \<Longrightarrow>
   concat wts' = concat wts @ concat (map snd rest)"
proof (induction rest arbitrary: i words wts)
  case Nil
  then show ?case by simp
next
  case (Cons p rest)
  obtain subword subword_tokens where p: "p = (subword, subword_tokens)" by (cases p)
  from Cons.prems p obtain special where sp: "is_special tk tas subword_tokens = Inr special"
    by (cases "is_special tk tas subword_tokens") auto
  from Cons.prems p sp obtain previous where pr: "previous_special tk tas stl i = Inr previous"
    by (cases "previous_special tk tas stl i") auto
  show ?case
  proof (cases "special \<or> (prefix (str '' '') subword \<and> \<not> sublist (strip subword) punctuation_chars) \<or> previous")
    case True
    from Cons.prems have
      "spaces_loop tk tas stl (i + 1) (words @ [strip subword]) (wts @ [subword_tokens]) rest
       = Inr (words', wts')"
      unfolding p spaces_loop_open [OF sp pr True] .
    from Cons.IH [OF this] p show ?thesis by simp
  next
    case False
    from Cons.prems have run:
      "(if words = [] \<or> wts = [] then Inl IndexError
        else spaces_loop tk tas stl (i + 1) (butlast words @ [last words @ strip subword])
           (butlast wts @ [last wts @ subword_tokens]) rest) = Inr (words', wts')"
      unfolding p spaces_loop_merge [OF sp pr False] .
    then have ne: "wts \<noteq> []" by (auto split: if_splits)
    from run have
      "spaces_loop tk tas stl (i + 1) (butlast words @ [last words @ strip subword])
           (butlast wts @ [last wts @ subword_tokens]) rest = Inr (words', wts')"
      by (auto split: if_splits)
    from Cons.IH [OF this] have
      "concat wts' = concat (butlast wts @ [last wts @ subword_tokens]) @ concat (map snd rest)" .
    then show ?thesis unfolding concat_extend_last [OF ne] p by simp
  qed
qed

text \<open>
  Where the tokens go. \<^verbatim>\<open>split_tokens_on_unicode\<close> never fails. With \<^verbatim>\<open>tokens_as_string\<close>
  disabled, whenever one of the two functions returns, the tokens found in the returned spans
  (looking also inside the nested lists), followed by the tokens left in \<^verbatim>\<open>current_tokens\<close>,
  are the original token sequence: no token is duplicated or reordered.
\<close>

lemma split_tokens_span_tokens:
  "(\<exists>r. split_tokens_on_unicode tokens tk tas rp ip = Inr r)
   \<and> (\<forall>words wts. split_tokens_on_unicode tokens tk False rp ip = Inr (words, wts) \<longrightarrow>
          span_tokens wts @ pending tk [] tokens = tokens)
   \<and> (\<forall>words wts. split_tokens_on_spaces tokens tk False rp = Inr (words, wts) \<longrightarrow>
          span_tokens wts @ pending tk [] tokens = tokens)"
proof (intro conjI allI impI)
  show "\<exists>r. split_tokens_on_unicode tokens tk tas rp ip = Inr r"
    unfolding split_tokens_on_unicode_def by (rule unicode_loop_total) simp
next
  fix words wts
  assume "split_tokens_on_unicode tokens tk False rp ip = Inr (words, wts)"
  then have "unicode_loop tk False rp ip [] [] [] tokens = Inr (words, wts)"
    by (simp add: split_tokens_on_unicode_def)
  from unicode_loop_tokens [OF this] show "span_tokens wts @ pending tk [] tokens = tokens"
    by simp
next
  fix words wts
  assume run: "split_tokens_on_spaces tokens tk False rp = Inr (words, wts)"
  then obtain subwords stl where
    u: "unicode_loop tk False rp False [] [] [] tokens = Inr (subwords, stl)"
    and l: "spaces_loop tk False stl 0 [] [] (zip subwords stl) = Inr (words, wts)"
    by (auto simp: split_tokens_on_spaces_def split_tokens_on_unicode_def split: sum.splits)
  from unicode_loop_length [OF u] have "length subwords = length stl" by simp
  then have "map snd (zip subwords stl) = stl" by simp
  with spaces_loop_concat [OF l] have "concat wts = concat stl" by simp
  then have "span_tokens wts = span_tokens stl" by (simp add: span_tokens_def)
  with unicode_loop_tokens [OF u] show "span_tokens wts @ pending tk [] tokens = tokens"
    by simp
qed

text \<open>
  Claim C8. Concatenating the returned spans does not give back the token sequence, in either
  mode. With \<^verbatim>\<open>tokens_as_string\<close> disabled, the tokens of a punctuation unit are added to the
  span of the word before it by \<^verbatim>\<open>word_tokens[-1].append(current_tokens)\<close> (line 713), as one
  nested list, where a word's own tokens are the elements of its span (line 717) and
  \<^verbatim>\<open>split_tokens_on_spaces\<close> merges with \<^verbatim>\<open>extend\<close> (line 740): for the tokens of
  \<^verbatim>\<open>" Hello"\<close> and \<^verbatim>\<open>","\<close> the one span is \<^verbatim>\<open>[1, [3]]\<close>, and \<^verbatim>\<open>split_tokens_on_spaces\<close>
  fails with a \<^verbatim>\<open>TypeError\<close> when such a span comes first (line 731 compares its first
  element with \<^verbatim>\<open>tokenizer.eot\<close>). The tokens after the last complete unit are in no span:
  the token 10, the first half of a character, is dropped.
\<close>

theorem split_tokens_nested_punctuation:
  "split_tokens_on_unicode [1, 3] example_tokenizer False False False
     = Inr ([str '' Hello,''], [[Tok 1, Toks [3]]])
   \<and> split_tokens_on_spaces [1, 3] example_tokenizer False False
     = Inr ([str ''Hello,''], [[Tok 1, Toks [3]]])
   \<and> concat [[Tok 1, Toks [3]]] \<noteq> map Tok [1, 3]
   \<and> split_tokens_on_unicode [3, 1] example_tokenizer False False False
     = Inr ([str '','', str '' Hello''], [[Toks [3]], [Tok 1]])
   \<and> split_tokens_on_spaces [3, 1] example_tokenizer False False = Inl TypeError
   \<and> split_tokens_on_unicode [1, 10] example_tokenizer False False False
     = Inr ([str '' Hello''], [[Tok 1]])
   \<and> split_tokens_on_spaces [1, 10] example_tokenizer False False
     = Inr ([str ''Hello''], [[Tok 1]])
   \<and> concat [[Tok 1]] \<noteq> map Tok [1, 10]"
  by code_simp

subsubsection \<open>When \<^verbatim>\<open>split_tokens_on_spaces\<close> indexes an empty list\<close>

text \<open>
  Stripping keeps a prefix that starts and ends with a character that is not white space, and
  text that is not punctuation stays so when more text is appended to it.
\<close>

lemma rstrip_keeps:
  assumes "p \<noteq> []" and "\<not> is_space (last p)"
  shows "prefix p (rev (dropWhile is_space (rev (p @ y))))"
proof -
  have keep: "dropWhile is_space (rev p) = rev p"
    using assms by (cases "rev p") (auto simp: last_rev [symmetric] hd_rev)
  show ?thesis
  proof (cases "\<forall>x\<in>set (rev y). is_space x")
    case True
    then have "dropWhile is_space (rev y @ rev p) = dropWhile is_space (rev p)"
      by (intro dropWhile_append2) blast
    then show ?thesis using keep by simp
  next
    case False
    then obtain x where "x \<in> set (rev y)" "\<not> is_space x" by blast
    then have "dropWhile is_space (rev y @ rev p) = dropWhile is_space (rev y) @ rev p"
      by (rule dropWhile_append1)
    then show ?thesis by simp
  qed
qed

lemma strip_prefix_keep:
  assumes "p \<noteq> []" and "\<not> is_space (hd p)" and "\<not> is_space (last p)" and "prefix p s"
  shows "prefix p (strip s)"
proof -
  from assms(4) obtain y where s: "s = p @ y" by (auto simp: prefix_def)
  have "dropWhile is_space (p @ y) = p @ y"
    using assms(1,2) by (cases p) auto
  then show ?thesis
    unfolding strip_def s using rstrip_keeps [OF assms(1,3)] by simp
qed

lemma strip_ends:
  assumes "strip u \<noteq> []"
  shows "\<not> is_space (hd (strip u))" and "\<not> is_space (last (strip u))"
    and "\<exists>a b. u = a @ strip u @ b \<and> (\<forall>x\<in>set a. is_space x)"
proof -
  define l where "l = dropWhile is_space u"
  define r where "r = dropWhile is_space (rev l)"
  have su: "strip u = rev r" by (simp add: strip_def l_def r_def)
  with assms have rne: "r \<noteq> []" by simp
  then have lne: "l \<noteq> []" unfolding r_def by auto
  have "\<not> is_space (hd r)" using rne unfolding r_def by (rule hd_dropWhile)
  then show "\<not> is_space (last (strip u))" using rne by (simp add: su last_rev)
  have l: "l = rev r @ rev (takeWhile is_space (rev l))"
  proof -
    have "rev l = takeWhile is_space (rev l) @ r" by (simp add: r_def)
    then have "rev (rev l) = rev (takeWhile is_space (rev l) @ r)" by simp
    then show ?thesis by simp
  qed
  have "\<not> is_space (hd l)" using lne unfolding l_def by (rule hd_dropWhile)
  moreover have "hd l = hd (rev r)" using l rne by (metis hd_append2 rev_is_Nil_conv)
  ultimately show "\<not> is_space (hd (strip u))" by (simp add: su)
  have "u = takeWhile is_space u @ l" by (simp add: l_def)
  then have "u = takeWhile is_space u @ strip u @ rev (takeWhile is_space (rev l))"
    using l su by simp
  moreover have "\<forall>x\<in>set (takeWhile is_space u). is_space x"
    by (auto dest: set_takeWhileD)
  ultimately show "\<exists>a b. u = a @ strip u @ b \<and> (\<forall>x\<in>set a. is_space x)" by blast
qed

lemma strip_append_prefix:
  assumes "strip u \<noteq> []"
  shows "prefix (strip u) (strip (u @ v))"
proof -
  from strip_ends(3) [OF assms] obtain a b
    where u: "u = a @ strip u @ b" and a: "\<forall>x\<in>set a. is_space x" by blast
  have "dropWhile is_space (u @ v) = dropWhile is_space (strip u @ b @ v)"
  proof -
    have uv: "u @ v = a @ (strip u @ b @ v)" using u by (metis append.assoc)
    have "dropWhile is_space (a @ (strip u @ b @ v)) = dropWhile is_space (strip u @ b @ v)"
      using a by (intro dropWhile_append2) blast
    then show ?thesis by (simp only: uv)
  qed
  then have "strip (u @ v) = strip (strip u @ (b @ v))"
    by (simp add: strip_def)
  moreover have "prefix (strip u) (strip (strip u @ (b @ v)))"
    using assms strip_ends(1,2) [OF assms] by (intro strip_prefix_keep) simp_all
  ultimately show ?thesis by simp
qed

lemma not_punctuation_append:
  assumes "\<not> sublist (strip u) punctuation_chars"
  shows "\<not> sublist (strip (u @ v)) punctuation_chars"
proof
  assume s: "sublist (strip (u @ v)) punctuation_chars"
  from assms have "strip u \<noteq> []" by auto
  then have "prefix (strip u) (strip (u @ v))" by (rule strip_append_prefix)
  then have "sublist (strip u) (strip (u @ v))" by (rule prefix_imp_sublist)
  from this s have "sublist (strip u) punctuation_chars" by (rule sublist_order.order_trans)
  with assms show False by contradiction
qed

lemma marker_not_space: "\<not> is_space 60" "\<not> is_space 124"
  by (simp_all add: is_space_def)

lemma marker_strip: "prefix (str ''<|'') u \<Longrightarrow> prefix (str ''<|'') (strip u)"
  by (rule strip_prefix_keep) (simp_all add: str_def marker_not_space)

lemma marker_not_in_punctuation: "\<not> sublist (str ''<|'') punctuation_chars"
  by code_simp

lemma marker_not_punctuation:
  assumes "prefix (str ''<|'') u"
  shows "\<not> sublist (strip u) punctuation_chars"
proof
  assume "sublist (strip u) punctuation_chars"
  moreover have "sublist (str ''<|'') (strip u)"
    using marker_strip [OF assms] by (rule prefix_imp_sublist)
  ultimately have "sublist (str ''<|'') punctuation_chars"
    using sublist_order.order_trans by blast
  with marker_not_in_punctuation show False by contradiction
qed

text \<open>A span whose first element is a decoded string, as every span is with \<^verbatim>\<open>tokens_as_string\<close>.\<close>

fun head_str :: "item list \<Rightarrow> bool" where
  "head_str (Str t # r) = True"
| "head_str r = False"

lemma head_str_append: "head_str xs \<Longrightarrow> head_str (xs @ ys)"
  by (cases xs rule: head_str.cases) auto

lemma head_str_hd: "head_str xs \<Longrightarrow> hd (xs @ ys) = hd xs \<and> xs \<noteq> []"
  by (cases xs rule: head_str.cases) auto

lemma unicode_loop_heads:
  "unicode_loop tk True rp ip words wts cur tokens = Inr (words', wts') \<Longrightarrow>
   length words = length wts \<Longrightarrow> list_all head_str wts \<Longrightarrow> list_all head_str wts'"
proof (induction tokens arbitrary: words wts cur)
  case Nil
  then show ?case by simp
next
  case (Cons token rest)
  let ?d = "decode_with_timestamps tk (cur @ [token])"
  show ?case
  proof (cases "replacement_char \<in> set ?d")
    case True
    from Cons.prems(1) have "unicode_loop tk True rp ip words wts (cur @ [token]) rest = Inr (words', wts')"
      unfolding unicode_loop_incomplete [OF True] .
    from Cons.IH [OF this Cons.prems(2,3)] show ?thesis .
  next
    case complete: False
    show ?thesis
    proof (cases "ip \<or> \<not> sublist (strip ?d) punctuation_chars")
      case True
      from Cons.prems(1) have
        "unicode_loop tk True rp ip (words @ [?d])
           (wts @ [if True then [Str (strip ?d)] else map Tok (cur @ [token])]) [] rest
         = Inr (words', wts')"
        unfolding unicode_loop_word [OF complete True] .
      from Cons.IH [OF this] Cons.prems(2,3) show ?thesis by simp
    next
      case False
      then have punct: "\<not> ip" "sublist (strip ?d) punctuation_chars" by auto
      define words1 where "words1 = (if words = [] then [[]] else words)"
      define wts1 where "wts1 = (if words = [] then [[]] else wts)"
      have len1: "length words1 = length wts1" and ne: "words1 \<noteq> []" "wts1 \<noteq> []"
        using Cons.prems(2) by (auto simp: words1_def wts1_def)
      have ok: "list_all head_str (butlast wts1 @ [last wts1 @ [Str (strip ?d)]])"
      proof (cases "words = []")
        case True
        then show ?thesis by (simp add: wts1_def)
      next
        case False
        then have w: "wts1 = wts" "wts \<noteq> []" using Cons.prems(2) by (auto simp: wts1_def)
        then have "list_all head_str (butlast wts @ [last wts])"
          using Cons.prems(3) by simp
        then have "list_all head_str (butlast wts) \<and> head_str (last wts)"
          unfolding list_all_append by simp
        then show ?thesis using w by (simp add: head_str_append)
      qed
      from Cons.prems(1) have
        "unicode_loop tk True rp ip
           (if \<not> rp then butlast words1 @ [last words1 @ ?d] else words1)
           (butlast wts1 @ [last wts1 @ [if True then Str (strip ?d) else Toks (cur @ [token])]])
           [] rest = Inr (words', wts')"
        unfolding unicode_loop_punct [OF complete punct words1_def wts1_def ne(2)] .
      from Cons.IH [OF this] len1 ne ok show ?thesis by simp
    qed
  qed
qed

lemma unicode_loop_first:
  "unicode_loop tk True rp ip words wts cur tokens = Inr (words', wts') \<Longrightarrow>
   length words = length wts \<Longrightarrow> wts \<noteq> [] \<Longrightarrow> head_str (hd wts) \<Longrightarrow>
   words' \<noteq> [] \<and> wts' \<noteq> [] \<and> prefix (hd words) (hd words') \<and> hd (hd wts') = hd (hd wts)"
proof (induction tokens arbitrary: words wts cur)
  case Nil
  then show ?case by auto
next
  case (Cons token rest)
  let ?d = "decode_with_timestamps tk (cur @ [token])"
  from Cons.prems(2,3) have wne: "words \<noteq> []" by auto
  show ?case
  proof (cases "replacement_char \<in> set ?d")
    case True
    from Cons.prems(1) have "unicode_loop tk True rp ip words wts (cur @ [token]) rest = Inr (words', wts')"
      unfolding unicode_loop_incomplete [OF True] .
    from Cons.IH [OF this Cons.prems(2,3,4)] show ?thesis .
  next
    case complete: False
    show ?thesis
    proof (cases "ip \<or> \<not> sublist (strip ?d) punctuation_chars")
      case True
      from Cons.prems(1) have
        "unicode_loop tk True rp ip (words @ [?d])
           (wts @ [if True then [Str (strip ?d)] else map Tok (cur @ [token])]) [] rest
         = Inr (words', wts')"
        unfolding unicode_loop_word [OF complete True] .
      from Cons.IH [OF this] Cons.prems(2,3,4) wne show ?thesis by simp
    next
      case False
      then have punct: "\<not> ip" "sublist (strip ?d) punctuation_chars" by auto
      define words1 where "words1 = (if words = [] then [[]] else words)"
      define wts1 where "wts1 = (if words = [] then [[]] else wts)"
      have w1: "words1 = words" "wts1 = wts" using wne by (simp_all add: words1_def wts1_def)
      let ?words2 = "if \<not> rp then butlast words @ [last words @ ?d] else words"
      let ?wts2 = "butlast wts @ [last wts @ [Str (strip ?d)]]"
      from Cons.prems(1) have run:
        "unicode_loop tk True rp ip ?words2 ?wts2 [] rest = Inr (words', wts')"
        using unicode_loop_punct [OF complete punct words1_def wts1_def, of True rp rest]
          Cons.prems(3) w1 by simp
      have len: "length ?words2 = length ?wts2" using Cons.prems(2,3) wne by simp
      have hw: "prefix (hd words) (hd ?words2)"
        using wne by (cases words rule: rev_cases; cases "butlast words") (auto simp: hd_append)
      have ht: "hd (hd ?wts2) = hd (hd wts) \<and> head_str (hd ?wts2)"
      proof (cases "butlast wts")
        case Nil
        then have "wts = [last wts]" using Cons.prems(3)
          by (metis append_butlast_last_id append_Nil)
        then have "hd wts = last wts" by (metis list.sel(1))
        then show ?thesis
          using Nil Cons.prems(4) head_str_hd [of "last wts"] head_str_append [of "last wts"]
          by simp
      next
        case (Cons a as)
        then have "hd wts = a" using Cons.prems(3)
          by (metis append_butlast_last_id hd_append2 list.sel(1) list.distinct(1))
        then show ?thesis using Cons \<open>head_str (hd wts)\<close> by simp
      qed
      have "?wts2 \<noteq> []" by simp
      from Cons.IH [OF run len this] ht
      have "words' \<noteq> [] \<and> wts' \<noteq> [] \<and> prefix (hd ?words2) (hd words')
          \<and> hd (hd wts') = hd (hd wts)" by simp
      with hw show ?thesis using prefix_order.order_trans by blast
    qed
  qed
qed

lemma first_unit_none:
  "first_unit tk cur tokens = None \<Longrightarrow>
   unicode_loop tk tas rp ip words wts cur tokens = Inr (words, wts)"
proof (induction tokens arbitrary: cur)
  case Nil
  then show ?case by simp
next
  case (Cons token rest)
  then have inc: "replacement_char \<in> set (decode_with_timestamps tk (cur @ [token]))"
    by (auto split: if_splits)
  with Cons.prems have "first_unit tk (cur @ [token]) rest = None" by simp
  from Cons.IH [OF this] show ?case unfolding unicode_loop_incomplete [OF inc] .
qed

lemma first_unit_word:
  "first_unit tk cur tokens = Some (u, rest) \<Longrightarrow> \<not> sublist (strip u) punctuation_chars \<Longrightarrow>
   unicode_loop tk True rp ip words wts cur tokens =
   unicode_loop tk True rp ip (words @ [u]) (wts @ [[Str (strip u)]]) [] rest"
proof (induction tokens arbitrary: cur)
  case Nil
  then show ?case by simp
next
  case (Cons token tokens)
  let ?d = "decode_with_timestamps tk (cur @ [token])"
  show ?case
  proof (cases "replacement_char \<in> set ?d")
    case True
    with Cons.prems(1) have "first_unit tk (cur @ [token]) tokens = Some (u, rest)" by simp
    from Cons.IH [OF this Cons.prems(2)] show ?thesis
      unfolding unicode_loop_incomplete [OF True] .
  next
    case False
    with Cons.prems(1) have u: "u = ?d" "rest = tokens" by simp_all
    with Cons.prems(2) have "ip \<or> \<not> sublist (strip ?d) punctuation_chars" by simp
    from unicode_loop_word [OF False this] u show ?thesis by simp
  qed
qed

lemma is_special_head:
  "head_str st \<Longrightarrow> is_special tk True st = Inr (prefix (str ''<|'') (case hd st of Str t \<Rightarrow> t | _ \<Rightarrow> []))"
  by (cases st rule: head_str.cases) (simp_all add: is_special_def)

lemma previous_special_head:
  "0 < i \<Longrightarrow> i - 1 < length stl \<Longrightarrow> list_all head_str stl \<Longrightarrow>
   \<exists>b. previous_special tk True stl i = Inr b"
  by (simp add: previous_special_def is_special_head list_all_length)

lemma spaces_loop_total:
  "words \<noteq> [] \<Longrightarrow> wts \<noteq> [] \<Longrightarrow> list_all head_str stl \<Longrightarrow> list_all head_str (map snd rest) \<Longrightarrow>
   0 < i \<Longrightarrow> i + length rest \<le> length stl \<Longrightarrow>
   \<exists>r. spaces_loop tk True stl i words wts rest = Inr r"
proof (induction rest arbitrary: i words wts)
  case Nil
  then show ?case by simp
next
  case (Cons p rest)
  obtain subword st where p: "p = (subword, st)" by (cases p)
  from Cons.prems(4) p have hs: "head_str st" and hr: "list_all head_str (map snd rest)" by simp_all
  obtain special where sp: "is_special tk True st = Inr special"
    using is_special_head [OF hs] by blast
  from Cons.prems(5,6) have "i - 1 < length stl" by simp
  then obtain previous where pr: "previous_special tk True stl i = Inr previous"
    using previous_special_head [OF Cons.prems(5) _ Cons.prems(3)] by blast
  have next_i: "0 < i + 1" "i + 1 + length rest \<le> length stl" using Cons.prems(6) by simp_all
  show ?case
  proof (cases "special \<or> (prefix (str '' '') subword \<and> \<not> sublist (strip subword) punctuation_chars) \<or> previous")
    case True
    have "\<exists>r. spaces_loop tk True stl (i + 1) (words @ [strip subword]) (wts @ [st]) rest = Inr r"
      by (rule Cons.IH [OF _ _ Cons.prems(3) hr next_i]) simp_all
    then show ?thesis unfolding p spaces_loop_open [OF sp pr True] .
  next
    case False
    have "\<exists>r. spaces_loop tk True stl (i + 1) (butlast words @ [last words @ strip subword])
        (butlast wts @ [last wts @ st]) rest = Inr r"
      by (rule Cons.IH [OF _ _ Cons.prems(3) hr next_i]) simp_all
    then show ?thesis
      unfolding p spaces_loop_merge [OF sp pr False] using Cons.prems(1,2) by simp
  qed
qed

lemma split_tokens_on_spaces_opens:
  assumes fu: "first_unit tk [] tokens = Some (u, rest)"
    and opens: "prefix (str ''<|'') u \<or>
      (prefix (str '' '') u \<and> \<not> sublist (strip u) punctuation_chars)"
  shows "\<exists>r. split_tokens_on_spaces tokens tk True rp = Inr r"
proof -
  have np: "\<not> sublist (strip u) punctuation_chars"
    using opens marker_not_punctuation by blast
  have start: "unicode_loop tk True rp False [] [] [] tokens =
      unicode_loop tk True rp False [u] [[Str (strip u)]] [] rest"
    using first_unit_word [OF fu np, of rp False "[]" "[]"] by simp
  obtain subwords stl where run:
    "unicode_loop tk True rp False [u] [[Str (strip u)]] [] rest = Inr (subwords, stl)"
    using unicode_loop_total [of "[u]" "[[Str (strip u)]]" tk True rp False "[]" rest] by auto
  have len: "length subwords = length stl"
    using unicode_loop_length [OF run] by simp
  have heads: "list_all head_str stl"
    using unicode_loop_heads [OF run] by simp
  have first: "subwords \<noteq> [] \<and> stl \<noteq> [] \<and> prefix u (hd subwords) \<and> hd (hd stl) = Str (strip u)"
    using unicode_loop_first [OF run] by simp
  then obtain sw sws st sts where sub: "subwords = sw # sws" and stl: "stl = st # sts"
    by (cases subwords; cases stl) auto
  with first have pre: "prefix u sw" and hd: "hd st = Str (strip u)" by simp_all
  from heads stl have hst: "head_str st" and hsts: "list_all head_str sts" by simp_all
  have sp: "is_special tk True st = Inr (prefix (str ''<|'') (strip u))"
    using is_special_head [OF hst, of tk] hd by simp
  have pr: "previous_special tk True stl 0 = Inr False"
    by (simp add: previous_special_def)
  have cond: "prefix (str ''<|'') (strip u) \<or>
      (prefix (str '' '') sw \<and> \<not> sublist (strip sw) punctuation_chars) \<or> False"
  proof (cases "prefix (str ''<|'') u")
    case True
    then show ?thesis using marker_strip by blast
  next
    case False
    with opens have sp: "prefix (str '' '') u" by blast
    from pre obtain v where "sw = u @ v" by (auto simp: prefix_def)
    with np have "\<not> sublist (strip sw) punctuation_chars"
      using not_punctuation_append by blast
    moreover have "prefix (str '' '') sw" using sp pre by (rule prefix_order.order_trans)
    ultimately show ?thesis by blast
  qed
  have "\<exists>r. spaces_loop tk True stl (0 + 1) ([] @ [strip sw]) ([] @ [st]) (zip sws sts) = Inr r"
  proof (rule spaces_loop_total [OF _ _ heads])
    show "list_all head_str (map snd (zip sws sts))"
      using len sub stl hsts by simp
    show "0 + 1 + length (zip sws sts) \<le> length stl"
      using stl by simp
  qed simp_all
  then have "\<exists>r. spaces_loop tk True stl 0 [] [] ((sw, st) # zip sws sts) = Inr r"
    unfolding spaces_loop_open [OF sp pr cond] .
  then show ?thesis
    unfolding split_tokens_on_spaces_def split_tokens_on_unicode_def start run
    by (simp add: sub stl)
qed

lemma split_tokens_on_spaces_empty:
  assumes "first_unit tk [] tokens = None"
  shows "split_tokens_on_spaces tokens tk tas rp = Inr ([], [])"
  using first_unit_none [OF assms, of tas rp False "[]" "[]"]
  by (simp add: split_tokens_on_spaces_def split_tokens_on_unicode_def)

text \<open>
  Claim C9 (amended). With \<^verbatim>\<open>tokens_as_string\<close> (the default), \<^verbatim>\<open>split_tokens_on_spaces\<close>
  never reaches the merge branch with an empty \<^verbatim>\<open>words\<close> list, and returns, for every token
  list whose first decoded unit starts with \<^verbatim>\<open><|\<close>, or starts with a space and is not
  punctuation (its stripped text is not a substring of \<^verbatim>\<open>_punctuation\<close>); it returns two empty
  lists when no unit is ever complete. For some token list whose first decoded unit is bare
  text that is neither special nor space-prefixed (a lone comma) the merge branch indexes the
  empty list and the function fails with \<^verbatim>\<open>IndexError\<close>.
\<close>

theorem split_tokens_on_spaces_first_unit:
  "(\<forall>u rest. first_unit tk [] tokens = Some (u, rest) \<and>
       (prefix (str ''<|'') u \<or>
        (prefix (str '' '') u \<and> \<not> sublist (strip u) punctuation_chars)) \<longrightarrow>
       (\<exists>r. split_tokens_on_spaces tokens tk True rp = Inr r))
   \<and> (first_unit tk [] tokens = None \<longrightarrow>
         split_tokens_on_spaces tokens tk True rp = Inr ([], []))
   \<and> first_unit example_tokenizer [] [3, 1] = Some (str '','', [1])
   \<and> split_tokens_on_spaces [3, 1] example_tokenizer True False = Inl IndexError"
proof -
  have a: "first_unit example_tokenizer [] [3, 1] = Some (str '','', [1])"
    by code_simp
  have b: "split_tokens_on_spaces [3, 1] example_tokenizer True False = Inl IndexError"
    by code_simp
  show ?thesis
    using split_tokens_on_spaces_opens [of tk tokens _ _ rp]
      split_tokens_on_spaces_empty [of tk tokens True rp] a b
    by blast
qed

theorem split_tokens_on_spaces_first_unit_witness:
  "first_unit example_tokenizer [] [50364, 1, 3, 2, 50414] = Some (str ''<|ts|>'', [1, 3, 2, 50414])
   \<and> prefix (str ''<|'') (str ''<|ts|>'')
   \<and> first_unit example_tokenizer [] [1, 3, 2] = Some (str '' Hello'', [3, 2])
   \<and> prefix (str '' '') (str '' Hello'')
   \<and> \<not> sublist (strip (str '' Hello'')) punctuation_chars
   \<and> first_unit example_tokenizer [] [10] = None
   \<and> (\<exists>r. split_tokens_on_spaces [50364, 1, 3, 2, 50414] example_tokenizer True False = Inr r)
   \<and> (\<exists>r. split_tokens_on_spaces [1, 3, 2] example_tokenizer True False = Inr r)
   \<and> split_tokens_on_spaces [10] example_tokenizer True False = Inr ([], [])"
proof -
  have a: "first_unit example_tokenizer [] [50364, 1, 3, 2, 50414]
      = Some (str ''<|ts|>'', [1, 3, 2, 50414])" by code_simp
  have b: "prefix (str ''<|'') (str ''<|ts|>'')" by code_simp
  have c: "first_unit example_tokenizer [] [1, 3, 2] = Some (str '' Hello'', [3, 2])"
    by code_simp
  have d: "prefix (str '' '') (str '' Hello'')" by code_simp
  have e: "\<not> sublist (strip (str '' Hello'')) punctuation_chars" by code_simp
  have f: "first_unit example_tokenizer [] [10] = None" by code_simp
  from split_tokens_on_spaces_first_unit [of example_tokenizer "[50364, 1, 3, 2, 50414]" False] a b
  have g: "\<exists>r. split_tokens_on_spaces [50364, 1, 3, 2, 50414] example_tokenizer True False = Inr r"
    by blast
  from split_tokens_on_spaces_first_unit [of example_tokenizer "[1, 3, 2]" False] c d e
  have h: "\<exists>r. split_tokens_on_spaces [1, 3, 2] example_tokenizer True False = Inr r"
    by blast
  from split_tokens_on_spaces_first_unit [of example_tokenizer "[10]" False] f
  have i: "split_tokens_on_spaces [10] example_tokenizer True False = Inr ([], [])"
    by blast
  from a b c d e f g h i show ?thesis by (intro conjI)
qed

text \<open>
  A first unit that starts with a space is not enough: for a space followed by a comma,
  \<^verbatim>\<open>with_space and not punctuation\<close> is false and the merge branch is reached with an empty
  list.
\<close>

theorem split_tokens_on_spaces_space_punctuation:
  "first_unit example_tokenizer [] [4, 1] = Some (str '' ,'', [1])
   \<and> prefix (str '' '') (str '' ,'')
   \<and> split_tokens_on_spaces [4, 1] example_tokenizer True False = Inl IndexError"
  by code_simp

subsection \<open>Forced alignment: \<^verbatim>\<open>perform_word_alignment\<close>\<close>

text \<open>
  A \<^verbatim>\<open>torch.Tensor\<close> is its shape and its elements by index. An element of the argument
  \<^verbatim>\<open>attention_weights\<close> is a tensor (what \<^verbatim>\<open>transcribe_timestamped\<close> passes) or a Python
  list of tensors (what the recursive call of line 523 passes).
\<close>

record tensor =
  t_shape :: "nat list"
  t_at :: "nat list \<Rightarrow> rat"

datatype att = Tensor tensor | TensorList "tensor list"

text \<open>
  Lines 483-484: \<^verbatim>\<open>w.shape[-2] == len(tokens)\<close> for every element; a list has no attribute
  \<^verbatim>\<open>shape\<close>.
\<close>

fun check_shapes :: "att list \<Rightarrow> nat \<Rightarrow> error + unit" where
  "check_shapes [] n = Inr ()"
| "check_shapes (Tensor w # ws) n =
     (if length (t_shape w) < 2 then Inl IndexError
      else if t_shape w ! (length (t_shape w) - 2) \<noteq> n
      then Inl (AssertionError ''Attention weights have wrong shape'')
      else check_shapes ws n)"
| "check_shapes (TensorList l # ws) n = Inl AttributeError"

text \<open>
  \<^verbatim>\<open>torch.cat(attention_weights)\<close> (line 517), along dimension 0: it needs a non-empty list of
  tensors that agree on the other dimensions.
\<close>

fun cat_at :: "tensor list \<Rightarrow> nat list \<Rightarrow> rat" where
  "cat_at [] idx = 0"
| "cat_at (w # ws) [] = 0"
| "cat_at (w # ws) (i # idx) =
     (if i < hd (t_shape w) then t_at w (i # idx)
      else cat_at ws ((i - hd (t_shape w)) # idx))"

fun tensors_of :: "att list \<Rightarrow> tensor list option" where
  "tensors_of [] = Some []"
| "tensors_of (Tensor w # ws) = map_option ((#) w) (tensors_of ws)"
| "tensors_of (TensorList l # ws) = None"

definition torch_cat :: "att list \<Rightarrow> error + tensor" where
  "torch_cat ws =
     (case tensors_of ws of
        None \<Rightarrow> Inl TypeError
      | Some [] \<Rightarrow> Inl (RuntimeError ''torch.cat(): expected a non-empty list of Tensors'')
      | Some (w # rest) \<Rightarrow>
          if t_shape w = [] \<or> (\<exists>v \<in> set rest. t_shape v = [] \<or> tl (t_shape v) \<noteq> tl (t_shape w))
          then Inl (RuntimeError ''Sizes of tensors must match except in dimension 0'')
          else Inr \<lparr>t_shape = sum_list (map (\<lambda>v. hd (t_shape v)) (w # rest)) # tl (t_shape w),
                    t_at = cat_at (w # rest)\<rparr>)"

text \<open>
  The two slices of line 525, \<^verbatim>\<open>w[:, :, :k, :]\<close> and \<^verbatim>\<open>w[:, :, -1:, :]\<close>, and the element
  the recursive call receives for \<^verbatim>\<open>w\<close>: the Python list of the two slices.
\<close>

definition slice_first :: "int \<Rightarrow> tensor \<Rightarrow> tensor" where
  "slice_first k w =
     (let n = t_shape w ! 2;
          stop = (if k < 0 then nat (max 0 (int n + k)) else min (nat k) n)
      in w\<lparr>t_shape := (t_shape w)[2 := stop]\<rparr>)"

definition slice_last :: "tensor \<Rightarrow> tensor" where
  "slice_last w =
     (let n = t_shape w ! 2
      in \<lparr>t_shape = (t_shape w)[2 := min 1 n],
          t_at = (\<lambda>idx. t_at w (idx[2 := idx ! 2 + (n - 1)]))\<rparr>)"

fun collapse :: "int \<Rightarrow> att \<Rightarrow> error + att" where
  "collapse k (Tensor w) =
     (if length (t_shape w) < 4 then Inl IndexError
      else Inr (TensorList [slice_first k w, slice_last w]))"
| "collapse k (TensorList l) = Inl TypeError"

fun collapse_all :: "int \<Rightarrow> att list \<Rightarrow> error + att list" where
  "collapse_all k [] = Inr []"
| "collapse_all k (w # ws) =
     (case collapse k w of
        Inl e \<Rightarrow> Inl e
      | Inr c \<Rightarrow> (case collapse_all k ws of Inl e \<Rightarrow> Inl e | Inr cs \<Rightarrow> Inr (c # cs)))"

text \<open>
  Lines 639-692, from the alignment path to the words. \<^verbatim>\<open>index1s\<close> and \<^verbatim>\<open>index2s\<close> are the
  token and frame indices of the path; the arrays are Python lists here, and an index out of
  range is an \<^verbatim>\<open>IndexError\<close>.
\<close>

definition jump_frames :: "nat list \<Rightarrow> nat list \<Rightarrow> error + nat list" where
  "jump_frames index1s index2s =
     (if index1s = [] \<or> length index1s \<noteq> length index2s then Inl IndexError
      else Inr (map snd (filter fst
             (zip (True # map (\<lambda>(a, b). b \<noteq> a) (zip index1s (tl index1s))) index2s))))"

fun cumsum :: "nat \<Rightarrow> nat list \<Rightarrow> nat list" where
  "cumsum acc [] = []"
| "cumsum acc (x # xs) = (acc + x) # cumsum (acc + x) xs"

definition take_at :: "rat list \<Rightarrow> nat list \<Rightarrow> error + rat list" where
  "take_at xs idx =
     (if \<exists>i \<in> set idx. length xs \<le> i then Inl IndexError else Inr (map ((!) xs) idx))"

definition word_times ::
  "float_ops \<Rightarrow> int \<Rightarrow> rat \<Rightarrow> rat \<Rightarrow> pystr list \<Rightarrow> item list list \<Rightarrow> nat list
   \<Rightarrow> nat list \<Rightarrow> error + word list" where
  "word_times ops refine start_time end_time words word_tokens index1s index2s =
     (case jump_frames index1s index2s of
        Inl e \<Rightarrow> Inl e
      | Inr jumps \<Rightarrow>
     (let jump_times = map (\<lambda>j. fl_mul ops (of_nat j) (AUDIO_TIME_PER_TOKEN ops)) jumps
                       @ [fl_sub ops end_time start_time];
          word_boundaries = 0 # cumsum 0 (map length word_tokens)
      in
        if word_tokens = [] then Inl IndexError
        else
     (case take_at jump_times (butlast word_boundaries) of
        Inl e \<Rightarrow> Inl e
      | Inr begin_times \<Rightarrow>
     (case take_at jump_times (tl word_boundaries) of
        Inl e \<Rightarrow> Inl e
      | Inr end_times \<Rightarrow>
          if refine = 0 \<and> (length begin_times < 2 \<or> length end_times < 2) then Inl IndexError
          else
            (let begin_times' = (if refine = 0 then begin_times[1 := begin_times ! 0]
                                 else begin_times);
                 end_times' = (if refine = 0
                               then end_times[length end_times - 2 := last end_times]
                               else end_times)
             in Inr (map (\<lambda>(word, begin, end').
                            \<lparr>w_text = word, w_start = np_round2 ops (fl_add ops begin start_time),
                             w_end = np_round2 ops (fl_add ops end' start_time)\<rparr>)
                      (filter (\<lambda>(word, begin, end'). \<not> prefix (str ''<|'') word)
                         (zip (butlast (tl words))
                            (zip (butlast (tl begin_times')) (butlast (tl end_times')))))))))))"

text \<open>
  \<^verbatim>\<open>perform_word_alignment\<close> (lines 458-692). The numeric pipeline of lines 542-571 (the
  slice of the frames, the median filter, the softmax, the normalisation, the mean over layers
  and heads, and \<^verbatim>\<open>dtw.dtw\<close>) belongs to \<^verbatim>\<open>torch\<close>, \<^verbatim>\<open>scipy\<close> and \<^verbatim>\<open>dtw\<close>; it is the
  parameter \<open>dtw\<close>, which gives the path (\<^verbatim>\<open>index1s\<close>, \<^verbatim>\<open>index2s\<close>) for the concatenated
  weights and the frame window. The plotting code has no effect on the result. The recursive
  call of line 523 does not pass \<^verbatim>\<open>add_even_if_missing_end_token\<close>, which so takes its default
  \<^verbatim>\<open>True\<close>.
\<close>

fun is_tensor :: "att \<Rightarrow> bool" where
  "is_tensor (Tensor w) = True"
| "is_tensor (TensorList l) = False"

function perform_word_alignment ::
  "float_ops \<Rightarrow> (tensor \<Rightarrow> int \<Rightarrow> int \<Rightarrow> error + (nat list \<times> nat list)) \<Rightarrow> int list
   \<Rightarrow> att list \<Rightarrow> tokenizer \<Rightarrow> bool \<Rightarrow> int \<Rightarrow> bool \<Rightarrow> bool \<Rightarrow> error + word list" where
  "perform_word_alignment ops dtw tokens attention_weights tk use_space refine
       add_even_if_missing_end_token remove_punctuation_from_words =
     (case check_shapes attention_weights (length tokens) of
        Inl e \<Rightarrow> Inl e
      | Inr _ \<Rightarrow>
     if tokens = [] then Inl (AssertionError ''Got unexpected empty sequence of tokens'')
     else
     (let start_token = hd tokens - timestamp_begin tk;
          end_token = last tokens - timestamp_begin tk
      in
        if start_token < 0 then Inl (RuntimeError ''Missing start token'')
        else if length tokens = 1 \<or> end_token < 0 then
          (if add_even_if_missing_end_token
           then Inr [\<lparr>w_text = [],
                      w_start = fl_round2 ops
                                  (fl_mul ops (of_int start_token) (AUDIO_TIME_PER_TOKEN ops)),
                      w_end = fl_round2 ops
                                (fl_mul ops (of_int end_token) (AUDIO_TIME_PER_TOKEN ops))\<rparr>]
           else Inr [])
        else if end_token = start_token \<and> refine = 0 then Inr []
        else
     (let start_token' = (if 0 < refine then max (start_token - refine) 0 else start_token);
          end_token' = (if 0 < refine then min (end_token + refine) (N_FRAMES div 2)
                        else end_token)
      in
        if end_token' \<le> start_token'
        then Inl (RuntimeError ''Got segment with null or negative duration'')
        else
     (case (if use_space
            then split_tokens_on_spaces tokens tk True remove_punctuation_from_words
            else split_tokens_on_unicode tokens tk True remove_punctuation_from_words False) of
        Inl e \<Rightarrow> Inl e
      | Inr (words, word_tokens) \<Rightarrow>
     (case torch_cat attention_weights of
        Inl e \<Rightarrow> Inl e
      | Inr weights \<Rightarrow>
     (let num_tokens = t_shape weights ! (length (t_shape weights) - 2);
          num_frames = end_token' - start_token'
      in
        if num_frames < int num_tokens then
          (case collapse_all (num_frames - 1) attention_weights of
             Inl e \<Rightarrow> Inl e
           | Inr collapsed \<Rightarrow>
               perform_word_alignment ops dtw
                 (take (nat (num_frames - 1)) tokens @ [last tokens])
                 collapsed tk use_space refine True remove_punctuation_from_words)
        else if int (last (t_shape weights)) < end_token'
        then Inl (AssertionError ''end_token <= weights.shape[-1]'')
        else if length tokens \<noteq> num_tokens
        then Inl (AssertionError ''len(tokens) == num_tokens'')
        else
          (case dtw weights start_token' end_token' of
             Inl e \<Rightarrow> Inl e
           | Inr (index1s, index2s) \<Rightarrow>
               word_times ops refine
                 (fl_mul ops (of_int start_token') (AUDIO_TIME_PER_TOKEN ops))
                 (fl_mul ops (of_int end_token') (AUDIO_TIME_PER_TOKEN ops))
                 words word_tokens index1s index2s)))))))"
  by pat_completeness auto

lemma collapse_all_lists: "collapse_all k ws = Inr cs \<Longrightarrow> filter is_tensor cs = []"
proof (induction ws arbitrary: cs)
  case Nil
  then show ?case by simp
next
  case (Cons w ws)
  then show ?case
    by (cases w) (auto split: sum.splits if_splits)
qed

lemma tensors_of_tensors: "tensors_of ws = Some (v # vs) \<Longrightarrow> filter is_tensor ws \<noteq> []"
  by (cases ws rule: tensors_of.cases) auto

lemma torch_cat_tensors: "torch_cat ws = Inr w \<Longrightarrow> filter is_tensor ws \<noteq> []"
  unfolding torch_cat_def
  by (auto split: option.splits list.splits if_splits dest: tensors_of_tensors)

termination perform_word_alignment
proof (relation "measure (\<lambda>(ops, dtw, tokens, ws, rest). length (filter is_tensor ws))",
    goal_cases)
  case 1
  show ?case by simp
next
  case (2 ops dtw tokens attention_weights tk use_space refine add rp)
  then show ?case
    using collapse_all_lists torch_cat_tensors by fastforce
qed


declare perform_word_alignment.simps [simp del]

text \<open>
  For the examples: an attention tensor of one layer with 6 heads, \<open>n\<close> tokens and 1500
  frames, as \<^verbatim>\<open>may_flush_segment\<close> builds it (line 249); and the time the placeholder gives
  to a marker, \<^verbatim>\<open>round(token * AUDIO_TIME_PER_TOKEN, 2)\<close>.
\<close>

definition example_weights :: "nat \<Rightarrow> tensor" where
  "example_weights n = \<lparr>t_shape = [1, 6, n, 1500], t_at = (\<lambda>idx. 0)\<rparr>"

definition marker_time :: "float_ops \<Rightarrow> int \<Rightarrow> rat" where
  "marker_time ops k = fl_round2 ops (fl_mul ops (of_int k) (AUDIO_TIME_PER_TOKEN ops))"

subsubsection \<open>The placeholder word\<close>

text \<open>
  Lines 492-496: when the sequence is one token long or its last token is not a timestamp, the
  result is one word with empty text, its start the time of the first token and its end the
  time computed from the last token.
\<close>

lemma perform_word_alignment_placeholder:
  assumes "check_shapes attention_weights (length tokens) = Inr ()"
      and "tokens \<noteq> []"
      and "timestamp_begin tk \<le> hd tokens"
      and "length tokens = 1 \<or> last tokens < timestamp_begin tk"
  shows "perform_word_alignment ops dtw tokens attention_weights tk use_space refine True rp =
         Inr [\<lparr>w_text = [], w_start = marker_time ops (hd tokens - timestamp_begin tk),
               w_end = marker_time ops (last tokens - timestamp_begin tk)\<rparr>]"
proof -
  have "length tokens = 1 \<or> last tokens - timestamp_begin tk < 0"
    using assms(4) by auto
  then show ?thesis
    using assms(1-3)
    by (subst perform_word_alignment.simps)
       (simp add: marker_time_def Let_def del: of_int_diff)
qed


text \<open>
  Claim C2. The placeholder word of lines 492-496 takes its end from the last token, also when
  that token is not a timestamp: then \<^verbatim>\<open>end_token\<close> is negative, and the word ends before 0
  and before it starts, provided that the float operations keep the sign of a marker time.
\<close>

theorem perform_word_alignment_start_after_end:
  assumes "check_shapes attention_weights (length tokens) = Inr ()"
      and "tokens \<noteq> []"
      and "timestamp_begin tk \<le> hd tokens"
      and "last tokens < timestamp_begin tk"
      and "\<And>k. 0 \<le> k \<Longrightarrow> 0 \<le> marker_time ops k"
      and "\<And>k. k < 0 \<Longrightarrow> marker_time ops k < 0"
  shows "\<exists>w. perform_word_alignment ops dtw tokens attention_weights tk use_space refine True rp
              = Inr [w]
           \<and> w_end w < w_start w"
proof -
  have "0 \<le> marker_time ops (hd tokens - timestamp_begin tk)"
    using assms(3) by (intro assms(5)) simp
  moreover have "marker_time ops (last tokens - timestamp_begin tk) < 0"
    using assms(4) by (intro assms(6)) simp
  ultimately show ?thesis
    using perform_word_alignment_placeholder [OF assms(1-3), of ops dtw use_space refine rp]
      assms(4)
    by simp
qed


text \<open>Without rounding error a marker time is the token offset times 0.02.\<close>

lemma marker_time_exact: "marker_time exact_ops k = of_int k / 50"
proof -
  have "py_round2 (of_int k / 50) = of_int k / 50"
  proof -
    have e: "(of_int k / 50 :: rat) * 100 = of_int (2 * k)"
      by simp
    show ?thesis
      unfolding py_round2_def Let_def e by simp
  qed
  then show ?thesis
    by (simp add: marker_time_def exact_ops_def AUDIO_TIME_PER_TOKEN_def)
qed

theorem perform_word_alignment_start_after_end_witness:
  "\<exists>w. perform_word_alignment exact_ops (\<lambda>w s e. Inr ([], [])) [50464, 1, 2]
          [Tensor (example_weights 3)] example_tokenizer True 0 True False = Inr [w]
       \<and> w_end w < w_start w"
proof -
  have c: "check_shapes [Tensor (example_weights 3)] (length [50464, 1, 2 :: int]) = Inr ()"
    by (simp add: example_weights_def)
  show ?thesis
    by (rule perform_word_alignment_start_after_end [OF c])
       (simp_all add: example_tokenizer_def marker_time_exact)
qed

subsubsection \<open>More tokens than frames\<close>

text \<open>
  The recursive call of line 523 passes, for each tensor, the Python list of its two slices;
  the callee reads \<^verbatim>\<open>w.shape\<close> of it on line 484. So whenever the retry is reached (the shape
  check, the start and end markers, the split and \<^verbatim>\<open>torch.cat\<close> went through, and there are
  more tokens than frames) the function fails with an \<^verbatim>\<open>AttributeError\<close>.
\<close>

lemma check_shapes_lists:
  "collapse_all k ws = Inr cs \<Longrightarrow> ws \<noteq> [] \<Longrightarrow> check_shapes cs n = Inl AttributeError"
  by (cases ws; cases "hd ws") (auto split: sum.splits if_splits)

lemma torch_cat_nonempty: "torch_cat ws = Inr w \<Longrightarrow> ws \<noteq> []"
  unfolding torch_cat_def by auto


lemma perform_word_alignment_retry_fails:
  assumes shapes: "check_shapes attention_weights (length tokens) = Inr ()"
      and first: "timestamp_begin tk \<le> hd tokens"
      and several: "1 < length tokens"
      and frames: "hd tokens < last tokens"
      and split: "(if use_space then split_tokens_on_spaces tokens tk True rp
                   else split_tokens_on_unicode tokens tk True rp False) = Inr sp"
      and cat: "torch_cat attention_weights = Inr weights"
      and many: "last tokens - hd tokens < int (t_shape weights ! (length (t_shape weights) - 2))"
      and slices: "collapse_all (last tokens - hd tokens - 1) attention_weights = Inr collapsed"
  shows "perform_word_alignment ops dtw tokens attention_weights tk use_space 0 add rp =
         Inl AttributeError"
proof -
  have ne: "tokens \<noteq> []"
    using several by auto
  have c: "check_shapes collapsed n = Inl AttributeError" for n
    using check_shapes_lists [OF slices] torch_cat_nonempty [OF cat] by simp
  have r: "perform_word_alignment ops dtw ts collapsed tk use_space 0 True rp =
           Inl AttributeError" for ts
    by (subst perform_word_alignment.simps) (simp add: c)
  obtain words word_tokens where sp: "sp = (words, word_tokens)"
    by (cases sp)
  have d: "last tokens - timestamp_begin tk - (hd tokens - timestamp_begin tk) =
           last tokens - hd tokens"
    by simp
  have e: "\<not> last tokens - timestamp_begin tk < 0" "\<not> hd tokens - timestamp_begin tk < 0"
    "last tokens - timestamp_begin tk \<noteq> hd tokens - timestamp_begin tk"
    "\<not> last tokens - timestamp_begin tk \<le> hd tokens - timestamp_begin tk"
    using first frames by auto
  show ?thesis
    apply (subst perform_word_alignment.simps)
    using shapes ne e several split cat many frames
    apply (simp add: Let_def sp d slices r del: of_int_diff)
    done
qed


text \<open>
  Claim C5. A segment with more tokens than frames: the markers of 0.00 s and 0.04 s around the
  tokens of \<^verbatim>\<open>" Hello"\<close>, \<^verbatim>\<open>","\<close> and \<^verbatim>\<open>" world"\<close>, that is 5 tokens for 2 frames.
  \<^verbatim>\<open>perform_word_alignment\<close> enters the retry and fails there; it returns no word list.
\<close>

theorem perform_word_alignment_too_many_tokens:
  "perform_word_alignment ops dtw [50364, 1, 3, 2, 50366] [Tensor (example_weights 5)]
     example_tokenizer True 0 True False = Inl AttributeError"
proof -
  let ?tokens = "[50364, 1, 3, 2, 50366] :: int list"
  have shapes: "check_shapes [Tensor (example_weights 5)] (length ?tokens) = Inr ()"
    by (simp add: example_weights_def)
  have split: "(if True then split_tokens_on_spaces ?tokens example_tokenizer True False
                else split_tokens_on_unicode ?tokens example_tokenizer True False False) =
      Inr ([str ''<|ts|>'', str ''Hello,'', str ''world'', str ''<|ts|>''],
           [[Str (str ''<|ts|>'')], [Str (str ''Hello''), Str (str '','')],
            [Str (str ''world'')], [Str (str ''<|ts|>'')]])"
    by code_simp
  have cat: "torch_cat [Tensor (example_weights 5)] =
      Inr \<lparr>t_shape = [1, 6, 5, 1500], t_at = cat_at [example_weights 5]\<rparr>"
    by (simp add: torch_cat_def example_weights_def)
  have slices: "collapse_all (last ?tokens - hd ?tokens - 1) [Tensor (example_weights 5)] =
      Inr [TensorList [slice_first 1 (example_weights 5), slice_last (example_weights 5)]]"
    by (simp add: example_weights_def)
  show ?thesis
    by (rule perform_word_alignment_retry_fails [OF shapes _ _ _ split cat _ slices])
       (simp_all add: example_tokenizer_def)
qed

subsection \<open>The segment accumulator: \<^verbatim>\<open>may_flush_segment\<close>\<close>

text \<open>
  The variables of \<^verbatim>\<open>transcribe_timestamped\<close> that its nested functions \<^verbatim>\<open>reset\<close>,
  \<^verbatim>\<open>must_flush_segment\<close>, \<^verbatim>\<open>get_index_begin_30sec_chunck\<close> and \<^verbatim>\<open>may_flush_segment\<close> read
  and write (lines 173-186, 208, 227). A row of \<^verbatim>\<open>chunk_logprobs\<close> gives the log-probability
  of every token, \<open>None\<close> where it is not finite.
\<close>

record accumulator =
  timestamped_word_segments :: "word list list"
  tok_indices :: "int list list"
  tok_attweights :: "tensor list list"
  saw_consecutive_timestamps :: bool
  index_begin_30sec_chunck :: int
  has_started :: bool
  no_speech_prob :: "rat option"
  chunk_logprobs :: "(int \<Rightarrow> rat option) list"
  chunk_tokens :: "int list list"
  chunk_tokens_nosot :: "int list"

text \<open>The arguments of \<^verbatim>\<open>transcribe_timestamped\<close> that these functions read.\<close>

record settings =
  s_tokenizer :: tokenizer
  s_use_space :: bool
  s_refine :: int
  s_remove_punctuation :: bool
  s_no_speech_threshold :: "rat option"
  s_logprob_threshold :: "rat option"

text \<open>
  \<^verbatim>\<open>reset\<close> (lines 189-206). \<^verbatim>\<open>tok_indices[-2].pop(0)\<close> removes the first token of the buffer
  that was the last one before the \<^verbatim>\<open>append\<close>; \<^verbatim>\<open>w[-1:]\<close> keeps the last element of a list.
  Without \<^verbatim>\<open>add_segment\<close> the argument \<^verbatim>\<open>keep_last_token\<close> is not read.
\<close>

definition reset :: "bool \<Rightarrow> bool \<Rightarrow> accumulator \<Rightarrow> error + accumulator" where
  "reset add_segment keep_last_token st =
     (let ti = tok_indices st; aw = tok_attweights st in
      if ti = [] then Inl IndexError
      else if add_segment then
        (if last ti = [] then Inl IndexError
         else if keep_last_token then
           Inr (st\<lparr>tok_indices := butlast ti @ [tl (last ti), [last (last ti)]],
                    tok_attweights := map (\<lambda>w. drop (length w - 1) w) aw\<rparr>)
         else
           Inr (st\<lparr>tok_indices := butlast ti @ [tl (last ti), []],
                    tok_attweights := map (\<lambda>w. []) aw\<rparr>))
      else if last ti \<noteq> [] then
        Inr (st\<lparr>tok_indices := butlast ti @ [[]], tok_attweights := map (\<lambda>w. []) aw\<rparr>)
      else Inr st)"

text \<open>
  \<^verbatim>\<open>must_flush_segment\<close> (lines 209-225): the first branch is taken for a \<^verbatim>\<open>curr_tokens\<close> of
  exactly one token, the second for \<^verbatim>\<open>None\<close> and for any other number of tokens (a prompt).
\<close>

definition must_flush_segment ::
  "tokenizer \<Rightarrow> int list option \<Rightarrow> accumulator \<Rightarrow> error + (bool \<times> accumulator)" where
  "must_flush_segment tk curr_tokens st =
     (case curr_tokens of
        Some [token] \<Rightarrow>
          (if tok_indices st = [] then Inl IndexError
           else
             let last_token = (if last (tok_indices st) \<noteq> [] then last (last (tok_indices st))
                               else 0);
                 consecutive_timestamps =
                   (timestamp_begin tk \<le> token \<and> timestamp_begin tk \<le> last_token)
             in Inr (consecutive_timestamps,
                     if consecutive_timestamps then st\<lparr>saw_consecutive_timestamps := True\<rparr>
                     else st))
      | _ \<Rightarrow>
          (let must_flush = \<not> saw_consecutive_timestamps st in
           case (if \<not> must_flush then reset False True st else Inr st) of
             Inl e \<Rightarrow> Inl e
           | Inr st' \<Rightarrow> Inr (must_flush, st'\<lparr>saw_consecutive_timestamps := False\<rparr>)))"

text \<open>\<^verbatim>\<open>get_index_begin_30sec_chunck\<close> (lines 228-234); without a \<^verbatim>\<open>return\<close> the value is \<^verbatim>\<open>None\<close>.\<close>

definition get_index_begin_30sec_chunck ::
  "int list option \<Rightarrow> accumulator \<Rightarrow> int option \<times> accumulator" where
  "get_index_begin_30sec_chunck curr_tokens st =
     (if (case curr_tokens of None \<Rightarrow> True | Some ts \<Rightarrow> 1 < length ts) then
        (Some (index_begin_30sec_chunck st),
         st\<lparr>index_begin_30sec_chunck := int (length (tok_indices st)) - 1\<rparr>)
      else (None, st))"

text \<open>
  \<^verbatim>\<open>torch.cat(w[:-1], dim=-2)\<close> for the tensors of one layer, and the list comprehension of
  line 249 over the layers.
\<close>

fun cat_tokens_at :: "tensor list \<Rightarrow> nat list \<Rightarrow> rat" where
  "cat_tokens_at [] idx = 0"
| "cat_tokens_at (w # ws) idx =
     (let d = length idx - 2 in
      if idx ! d < t_shape w ! d then t_at w idx
      else cat_tokens_at ws (idx[d := idx ! d - t_shape w ! d]))"

definition torch_cat_tokens :: "tensor list \<Rightarrow> error + tensor" where
  "torch_cat_tokens ws =
     (case ws of
        [] \<Rightarrow> Inl (RuntimeError ''torch.cat(): expected a non-empty list of Tensors'')
      | w # rest \<Rightarrow>
          let d = length (t_shape w) - 2 in
          if length (t_shape w) < 2 then Inl IndexError
          else if \<exists>v \<in> set rest. (t_shape v)[d := 0] \<noteq> (t_shape w)[d := 0]
          then Inl (RuntimeError ''Sizes of tensors must match except in dimension -2'')
          else Inr \<lparr>t_shape = (t_shape w)[d := sum_list (map (\<lambda>v. t_shape v ! d) ws)],
                    t_at = cat_tokens_at ws\<rparr>)"

fun cat_layers :: "tensor list list \<Rightarrow> error + att list" where
  "cat_layers [] = Inr []"
| "cat_layers (w # ws) =
     (case torch_cat_tokens (butlast w) of
        Inl e \<Rightarrow> Inl e
      | Inr c \<Rightarrow> (case cat_layers ws of Inl e \<Rightarrow> Inl e | Inr cs \<Rightarrow> Inr (Tensor c # cs)))"

text \<open>The slice \<^verbatim>\<open>xs[:i]\<close>.\<close>

definition py_take :: "int \<Rightarrow> 'a list \<Rightarrow> 'a list" where
  "py_take i xs = (if 0 \<le> i then take (nat i) xs else take (nat (int (length xs) + i)) xs)"

text \<open>Lines 245-263: the alignment of the buffered tokens, and the reset.\<close>

definition flush_segment ::
  "float_ops \<Rightarrow> (tensor \<Rightarrow> int \<Rightarrow> int \<Rightarrow> error + (nat list \<times> nat list)) \<Rightarrow> settings
   \<Rightarrow> int list option \<Rightarrow> accumulator \<Rightarrow> error + accumulator" where
  "flush_segment ops dtw cfg curr_tokens st =
     (if tok_indices st = [] then Inl IndexError
      else
        case cat_layers (tok_attweights st) of
          Inl e \<Rightarrow> Inl e
        | Inr weights \<Rightarrow>
       (case perform_word_alignment ops dtw (drop 1 (last (tok_indices st))) weights
               (s_tokenizer cfg) (s_use_space cfg) (s_refine cfg) True
               (s_remove_punctuation cfg) of
          Inl e \<Rightarrow> Inl e
        | Inr ws \<Rightarrow>
            let add_segment = (ws \<noteq> []);
                st' = (if add_segment
                       then st\<lparr>timestamped_word_segments := timestamped_word_segments st @ [ws]\<rparr>
                       else st)
            in reset add_segment (case curr_tokens of Some [token] \<Rightarrow> True | _ \<Rightarrow> False) st'))"

text \<open>
  Lines 276-281: the average log-probability of the chosen tokens and the end-of-text token,
  with the two assertions. The sum starts from 0, as \<^verbatim>\<open>sum\<close> does.
\<close>

definition average_logprob :: "float_ops \<Rightarrow> tokenizer \<Rightarrow> accumulator \<Rightarrow> error + rat" where
  "average_logprob ops tk st =
     (let chunck_indices = chunk_tokens_nosot st @ [eot tk] in
      if length (chunk_logprobs st) \<noteq> length chunck_indices
      then Inl (AssertionError ''len(chunk_logprobs) == len(chunck_indices)'')
      else
        case those (map (\<lambda>(logprob, i). logprob i) (zip (chunk_logprobs st) chunck_indices)) of
          None \<Rightarrow> Inl (AssertionError ''Got infinite logprob'')
        | Some logprobs \<Rightarrow>
            Inr (fl_div ops (foldl (fl_add ops) 0 logprobs) (of_nat (length logprobs))))"

text \<open>
  Lines 270-289. The local variable \<^verbatim>\<open>avg_logprob\<close> is assigned on line 281 only; the message
  of line 287 reads it, and is built whether or not the logger shows it. Comparing a
  \<^verbatim>\<open>no_speech_prob\<close> that is \<^verbatim>\<open>None\<close> with a float is a \<^verbatim>\<open>TypeError\<close>.
\<close>

definition silence_filter ::
  "float_ops \<Rightarrow> settings \<Rightarrow> int \<Rightarrow> accumulator \<Rightarrow> error + accumulator" where
  "silence_filter ops cfg i_start st =
     (case s_no_speech_threshold cfg of
        None \<Rightarrow> Inr st
      | Some no_speech_threshold \<Rightarrow>
       (case no_speech_prob st of
          None \<Rightarrow> Inl TypeError
        | Some p \<Rightarrow>
            let should_skip = (no_speech_threshold < p) in
            case (case s_logprob_threshold cfg of
                    None \<Rightarrow> Inr (should_skip, None)
                  | Some logprob_threshold \<Rightarrow>
                      if should_skip then
                        (case average_logprob ops (s_tokenizer cfg) st of
                           Inl e \<Rightarrow> Inl e
                         | Inr avg_logprob \<Rightarrow>
                             Inr (\<not> logprob_threshold < avg_logprob, Some avg_logprob))
                      else Inr (should_skip, None)) of
              Inl e \<Rightarrow> Inl e
            | Inr (should_skip', avg_logprob) \<Rightarrow>
                if should_skip' then
                  (case avg_logprob of
                     None \<Rightarrow> Inl UnboundLocalError
                   | Some a \<Rightarrow>
                       if tok_indices st = [] then Inl IndexError
                       else Inr (st\<lparr>tok_indices :=
                                       py_take i_start (tok_indices st) @ [last (tok_indices st)],
                                     timestamped_word_segments :=
                                       py_take i_start (timestamped_word_segments st)\<rparr>))
                else Inr st))"

text \<open>\<^verbatim>\<open>may_flush_segment\<close> (lines 236-295).\<close>

definition may_flush_segment ::
  "float_ops \<Rightarrow> (tensor \<Rightarrow> int \<Rightarrow> int \<Rightarrow> error + (nat list \<times> nat list)) \<Rightarrow> settings
   \<Rightarrow> int list option \<Rightarrow> accumulator \<Rightarrow> error + accumulator" where
  "may_flush_segment ops dtw cfg curr_tokens st =
     (case must_flush_segment (s_tokenizer cfg) curr_tokens st of
        Inl e \<Rightarrow> Inl e
      | Inr (flush, st1) \<Rightarrow>
       (case (if flush then flush_segment ops dtw cfg curr_tokens st1 else Inr st1) of
          Inl e \<Rightarrow> Inl e
        | Inr st2 \<Rightarrow>
            (case get_index_begin_30sec_chunck curr_tokens st2 of
               (None, st3) \<Rightarrow> Inr st3
             | (Some i_start, st3) \<Rightarrow>
                 if has_started st3 then
                   (case silence_filter ops cfg i_start st3 of
                      Inl e \<Rightarrow> Inl e
                    | Inr st4 \<Rightarrow>
                        Inr (st4\<lparr>chunk_tokens := [], chunk_tokens_nosot := [],
                                  chunk_logprobs := [], no_speech_prob := None\<rparr>))
                 else Inr st3)))"


text \<open>
  For the examples: settings with a no-speech threshold of 0.5 and no log-probability
  threshold; an accumulator whose only buffer holds the given tokens, with one attention
  tensor of one layer for each of them, and the no-speech probability 0.875; and an alignment
  routine for the runs that never reach it.
\<close>

definition example_settings :: settings where
  "example_settings =
     \<lparr>s_tokenizer = example_tokenizer, s_use_space = True, s_refine = 0,
      s_remove_punctuation = False, s_no_speech_threshold = Some (1 / 2),
      s_logprob_threshold = None\<rparr>"

definition example_accumulator :: "int list \<Rightarrow> bool \<Rightarrow> accumulator" where
  "example_accumulator buffer saw =
     \<lparr>timestamped_word_segments = [], tok_indices = [buffer],
      tok_attweights = [replicate (length buffer) (example_weights 1)],
      saw_consecutive_timestamps = saw, index_begin_30sec_chunck = 0, has_started = True,
      no_speech_prob = Some (7 / 8), chunk_logprobs = [], chunk_tokens = [],
      chunk_tokens_nosot = []\<rparr>"


subsubsection \<open>Prompt events\<close>


text \<open>
  A one-token event sets the flag, and asks for a flush, exactly when its token and the last
  buffered token (0 when the buffer is empty) are both timestamps.
\<close>

lemma must_flush_segment_token:
  assumes "tok_indices st \<noteq> []"
  shows "must_flush_segment tk (Some [token]) st =
     (let consecutive = (timestamp_begin tk \<le> token \<and> last (tok_indices st) \<noteq> []
                          \<and> timestamp_begin tk \<le> last (last (tok_indices st))
                        \<or> timestamp_begin tk \<le> token \<and> last (tok_indices st) = []
                          \<and> timestamp_begin tk \<le> 0)
      in Inr (consecutive,
              if consecutive then st\<lparr>saw_consecutive_timestamps := True\<rparr> else st))"
  using assms by (auto simp: must_flush_segment_def Let_def)





subsubsection \<open>The silence filter\<close>

text \<open>
  Without a log-probability threshold, a window whose no-speech probability exceeds the
  threshold is not deleted: the function fails on line 287. With a log-probability threshold
  the segments from \<^verbatim>\<open>i_start\<close> on are deleted exactly when the no-speech probability exceeds
  its threshold and the average log-probability does not exceed its own.
\<close>

lemma silence_filter_unbound:
  assumes "s_no_speech_threshold cfg = Some t" and "no_speech_prob st = Some p" and "t < p"
      and "s_logprob_threshold cfg = None"
  shows "silence_filter ops cfg i_start st = Inl UnboundLocalError"
  using assms by (simp add: silence_filter_def)

lemma silence_filter_configured:
  assumes "s_no_speech_threshold cfg = Some t" and "no_speech_prob st = Some p"
      and "s_logprob_threshold cfg = Some l"
      and "average_logprob ops (s_tokenizer cfg) st = Inr a"
      and "tok_indices st \<noteq> []"
  shows "silence_filter ops cfg i_start st =
     Inr (if t < p \<and> \<not> l < a
          then st\<lparr>tok_indices := py_take i_start (tok_indices st) @ [last (tok_indices st)],
                  timestamped_word_segments := py_take i_start (timestamped_word_segments st)\<rparr>
          else st)"
  using assms by (cases "t < p") (simp_all add: silence_filter_def Let_def)

text \<open>
  Claim C4. A window is completed by a prompt event, with a no-speech threshold of 0.5, no
  log-probability threshold and a no-speech probability of 0.875: the claim has the segments
  of the window deleted, \<^verbatim>\<open>may_flush_segment\<close> fails with an \<^verbatim>\<open>UnboundLocalError\<close> instead.
\<close>

theorem may_flush_segment_unbound:
  "may_flush_segment ops dtw example_settings (Some [50258, 50259, 50359])
     (example_accumulator [50414, 50414] True) = Inl UnboundLocalError"
  by (simp add: must_flush_segment_def may_flush_segment_def reset_def
      get_index_begin_30sec_chunck_def silence_filter_def example_accumulator_def
      example_settings_def example_tokenizer_def)

end
